theory Spec2Isabelle
  imports Main "HOL-Library.Word" "HOL-Library.List_Lexorder"
begin

unbundle bit_operations_syntax

section \<open>The encryption context codec of source/enc_ctx.c\<close>

text \<open>
  The encryption context is a hash table from string keys to string values.  The file
  source/enc_ctx.c computes the serialized size of such a table, writes it in a canonical
  byte encoding, parses that encoding back from an untrusted cursor, and synchronises one
  table with another.  The hash table, the string type, the byte buffer, the byte cursor
  and the allocator come from the aws-c-common library; they are modelled here by what the
  code of enc_ctx.c relies on.
\<close>

subsection \<open>Bytes, errors, strings\<close>

type_synonym byte = "8 word"
type_synonym uint16_t = "16 word"

text \<open>\<open>UINT16_MAX\<close> and \<open>SIZE_MAX\<close> of a 64-bit target, as values of \<open>size_t\<close>.\<close>

definition UINT16_MAX :: nat where
  "UINT16_MAX = 65535"

definition SIZE_MAX :: nat where
  "SIZE_MAX = 18446744073709551615"

text \<open>The error codes that the functions of enc_ctx.c raise or pass on.\<close>

datatype error =
    AWS_CRYPTOSDK_ERR_LIMIT_EXCEEDED
  | AWS_CRYPTOSDK_ERR_BAD_CIPHERTEXT
  | AWS_ERROR_SHORT_BUFFER
  | AWS_ERROR_OOM
  | AWS_ERROR_OVERFLOW_DETECTED
  | AWS_ERROR_INVALID_INDEX

text \<open>
  A \<open>struct aws_string\<close> is immutable once created: an allocator pointer (\<open>None\<close> is
  \<open>NULL\<close>, the mark of a string of static storage), a length and the bytes.  A pointer
  to a string is modelled by the string together with its address \<open>addr\<close>, so that two
  references can be compared for identity as well as for content.  The length field is
  the length of the byte list.
\<close>

record aws_string =
  addr :: nat
  allocator :: "nat option"
  bytes :: "byte list"

definition len :: "aws_string \<Rightarrow> nat" where
  "len s = length (bytes s)"

text \<open>\<open>aws_string_eq\<close> compares length and bytes.\<close>

definition aws_string_eq :: "aws_string \<Rightarrow> aws_string \<Rightarrow> bool" where
  "aws_string_eq a b = (bytes a = bytes b)"

subsection \<open>Memory\<close>

text \<open>
  Allocation can fail.  The memory state holds the next unused address and a schedule of
  faults: each allocation request takes the head of the schedule and fails when it is
  \<open>True\<close>; with the schedule used up, requests succeed.  Releasing memory
  (\<open>aws_string_destroy\<close>, \<open>aws_array_list_clean_up\<close>) changes nothing that the
  functions below can observe, so it has no counterpart in the state.
\<close>

record memory =
  next_addr :: nat
  faults :: "bool list"

definition mem_acquire :: "memory \<Rightarrow> bool \<times> memory" where
  "mem_acquire m =
     (case faults m of
        [] \<Rightarrow> (True, m)
      | f # fs \<Rightarrow> (\<not> f, m\<lparr>faults := fs\<rparr>))"

text \<open>
  \<open>aws_string_new_from_array(allocator, bytes, len)\<close>: a new string owned by
  \<open>allocator\<close> at a fresh address, or \<open>NULL\<close> when the allocation fails.  The
  allocator argument is a valid, non-null pointer by the precondition of every caller.
\<close>

definition aws_string_new_from_array ::
  "nat \<Rightarrow> byte list \<Rightarrow> memory \<Rightarrow> aws_string option \<times> memory" where
  "aws_string_new_from_array alloc bs m =
     (case mem_acquire m of
        (False, m') \<Rightarrow> (None, m')
      | (True, m') \<Rightarrow>
          (Some \<lparr>addr = next_addr m', allocator = Some alloc, bytes = bs\<rparr>,
           m'\<lparr>next_addr := Suc (next_addr m')\<rparr>))"

subsection \<open>The hash table\<close>

text \<open>
  The table is the list of its elements in iteration order, which the library leaves
  unspecified: every statement below holds for every order of the tables it is given.
  A valid table holds no two keys with equal bytes (the table is initialised with
  \<open>aws_hash_callback_string_eq\<close> as its key equality).
\<close>

type_synonym aws_hash_element = "aws_string \<times> aws_string"
type_synonym aws_hash_table = "aws_hash_element list"

definition aws_hash_table_is_valid :: "aws_hash_table \<Rightarrow> bool" where
  "aws_hash_table_is_valid t = distinct (map (\<lambda>e. bytes (fst e)) t)"

definition aws_hash_table_get_entry_count :: "aws_hash_table \<Rightarrow> nat" where
  "aws_hash_table_get_entry_count t = length t"

definition aws_hash_table_find :: "aws_hash_table \<Rightarrow> aws_string \<Rightarrow> aws_hash_element option" where
  "aws_hash_table_find t k = find (\<lambda>e. aws_string_eq (fst e) k) t"

text \<open>
  Storing through a pointer to an element: the element that \<open>aws_hash_table_find\<close>
  returns for the key \<open>k\<close>, the first one whose key equals \<open>k\<close>, becomes \<open>e'\<close>.
\<close>

primrec update_elem :: "aws_string \<Rightarrow> aws_hash_element \<Rightarrow> aws_hash_table \<Rightarrow> aws_hash_table" where
  "update_elem k e' [] = []"
| "update_elem k e' (e # t) =
     (if aws_string_eq (fst e) k then e' # t else e # update_elem k e' t)"

text \<open>
  \<open>aws_hash_table_put\<close> stores key and value and reports whether the key was new.
  For a key already present the element takes the new key and the new value (the old
  ones are destroyed) and nothing is allocated; a new element may need the table to
  grow, which can fail.
\<close>

definition aws_hash_table_put ::
  "aws_hash_table \<Rightarrow> aws_string \<Rightarrow> aws_string \<Rightarrow> memory \<Rightarrow> (error + bool) \<times> aws_hash_table \<times> memory" where
  "aws_hash_table_put t k v m =
     (case aws_hash_table_find t k of
        Some _ \<Rightarrow> (Inr False, update_elem k (k, v) t, m)
      | None \<Rightarrow>
          (case mem_acquire m of
             (False, m') \<Rightarrow> (Inl AWS_ERROR_OOM, t, m')
           | (True, m') \<Rightarrow> (Inr True, t @ [(k, v)], m')))"

text \<open>
  Modelled from the spec: \<open>aws_cryptosdk_enc_ctx_clear\<close> is declared in the header
  enc_ctx.h, which is not among the sources; the specification says that it clears the
  mapping entirely, destroying all entries.
\<close>

definition aws_cryptosdk_enc_ctx_clear :: "aws_hash_table \<Rightarrow> aws_hash_table" where
  "aws_cryptosdk_enc_ctx_clear t = []"

text \<open>The content of a table: its key and value bytes, without addresses and owners.\<close>

definition contents :: "aws_hash_table \<Rightarrow> (byte list \<times> byte list) list" where
  "contents t = map (\<lambda>e. (bytes (fst e), bytes (snd e))) t"

subsection \<open>The byte cursor\<close>

text \<open>
  A cursor is the list of the bytes that remain to be read.  Both read operations leave
  the cursor as it is when they fail.  \<open>aws_byte_cursor_advance_nospec\<close> returns a
  cursor with a null pointer when fewer bytes remain than asked for.  The library also
  refuses lengths above \<open>SIZE_MAX / 2\<close>; no cursor in memory is that long, and the
  model leaves this check out, as it does for the writes to a buffer below.
\<close>

type_synonym aws_byte_cursor = "byte list"

definition aws_byte_cursor_read_be16 :: "aws_byte_cursor \<Rightarrow> (uint16_t \<times> aws_byte_cursor) option" where
  "aws_byte_cursor_read_be16 cursor =
     (case cursor of
        hi # lo # rest \<Rightarrow> Some (push_bit 8 (ucast hi) OR ucast lo, rest)
      | _ \<Rightarrow> None)"

definition aws_byte_cursor_advance_nospec ::
  "aws_byte_cursor \<Rightarrow> nat \<Rightarrow> (byte list \<times> aws_byte_cursor) option" where
  "aws_byte_cursor_advance_nospec cursor n =
     (if n \<le> length cursor then Some (take n cursor, drop n cursor) else None)"

subsection \<open>Deserialization\<close>

text \<open>
  The result of \<open>aws_cryptosdk_enc_ctx_deserialize\<close>: the return code with the raised
  error, the table, the cursor and the memory as the call leaves them.
\<close>

type_synonym deserialize_result = "(error + unit) \<times> aws_hash_table \<times> aws_byte_cursor \<times> memory"

text \<open>The labels \<open>RETHROW\<close> and \<open>SHORT_BUF\<close>: clear the table and return the error.\<close>

definition RETHROW :: "error \<Rightarrow> aws_hash_table \<Rightarrow> aws_byte_cursor \<Rightarrow> memory \<Rightarrow> deserialize_result" where
  "RETHROW e enc_ctx cursor m = (Inl e, aws_cryptosdk_enc_ctx_clear enc_ctx, cursor, m)"

definition SHORT_BUF :: "aws_hash_table \<Rightarrow> aws_byte_cursor \<Rightarrow> memory \<Rightarrow> deserialize_result" where
  "SHORT_BUF enc_ctx cursor m = RETHROW AWS_ERROR_SHORT_BUFFER enc_ctx cursor m"

text \<open>
  The body of the loop: one key and one value are read, copied into new strings and put
  into the table.  \<open>Inl\<close> is a jump to one of the labels, with the result of the
  whole call; \<open>Inr\<close> is the state with which the loop goes on.
\<close>

definition deserialize_body ::
  "nat \<Rightarrow> aws_hash_table \<Rightarrow> aws_byte_cursor \<Rightarrow> memory \<Rightarrow>
   deserialize_result + (aws_hash_table \<times> aws_byte_cursor \<times> memory)" where
  "deserialize_body alloc enc_ctx cursor m =
     (case aws_byte_cursor_read_be16 cursor of
        None \<Rightarrow> Inl (SHORT_BUF enc_ctx cursor m)
      | Some (klen, cursor1) \<Rightarrow>
     (case aws_byte_cursor_advance_nospec cursor1 (unat klen) of
        None \<Rightarrow> Inl (SHORT_BUF enc_ctx cursor1 m)
      | Some (k_cursor, cursor2) \<Rightarrow>
     (case aws_byte_cursor_read_be16 cursor2 of
        None \<Rightarrow> Inl (SHORT_BUF enc_ctx cursor2 m)
      | Some (vlen, cursor3) \<Rightarrow>
     (case aws_byte_cursor_advance_nospec cursor3 (unat vlen) of
        None \<Rightarrow> Inl (SHORT_BUF enc_ctx cursor3 m)
      | Some (v_cursor, cursor4) \<Rightarrow>
     (case aws_string_new_from_array alloc k_cursor m of (k, m1) \<Rightarrow>
     (case aws_string_new_from_array alloc v_cursor m1 of (v, m2) \<Rightarrow>
     (case (k, v) of
        (Some k', Some v') \<Rightarrow>
          (case aws_hash_table_put enc_ctx k' v' m2 of
             (Inl e, enc_ctx', m3) \<Rightarrow> Inl (RETHROW e enc_ctx' cursor4 m3)
           | (Inr was_created, enc_ctx', m3) \<Rightarrow>
               if \<not> was_created
               then Inl (RETHROW AWS_CRYPTOSDK_ERR_BAD_CIPHERTEXT enc_ctx' cursor4 m3)
               else Inr (enc_ctx', cursor4, m3))
      | _ \<Rightarrow> Inl (RETHROW AWS_ERROR_OOM enc_ctx cursor4 m2))))))))"

text \<open>
  The loop \<open>for (uint16_t i = 0; i < elem_count; i++)\<close>.  The counters are the values
  of the two 16-bit variables; \<open>i\<close> stays below \<open>elem_count\<close>, so \<open>i++\<close> never wraps.
\<close>

function deserialize_loop ::
  "nat \<Rightarrow> nat \<Rightarrow> nat \<Rightarrow> aws_hash_table \<Rightarrow> aws_byte_cursor \<Rightarrow> memory \<Rightarrow> deserialize_result" where
  "deserialize_loop alloc i elem_count enc_ctx cursor m =
     (if i < elem_count then
        (case deserialize_body alloc enc_ctx cursor m of
           Inl r \<Rightarrow> r
         | Inr (enc_ctx', cursor', m') \<Rightarrow>
             deserialize_loop alloc (i + 1) elem_count enc_ctx' cursor' m')
      else (Inr (), enc_ctx, cursor, m))"
  by pat_completeness auto
termination
  by (relation "measure (\<lambda>(alloc, i, elem_count, enc_ctx, cursor, m). elem_count - i)") auto

declare deserialize_loop.simps [simp del]

definition aws_cryptosdk_enc_ctx_deserialize ::
  "nat \<Rightarrow> aws_hash_table \<Rightarrow> aws_byte_cursor \<Rightarrow> memory \<Rightarrow> deserialize_result" where
  "aws_cryptosdk_enc_ctx_deserialize alloc enc_ctx cursor m =
     (let enc_ctx0 = aws_cryptosdk_enc_ctx_clear enc_ctx in
      if length cursor = 0 then (Inr (), enc_ctx0, cursor, m)
      else
        (case aws_byte_cursor_read_be16 cursor of
           None \<Rightarrow> SHORT_BUF enc_ctx0 cursor m
         | Some (elem_count, cursor1) \<Rightarrow>
             if elem_count = 0
             then (Inl AWS_CRYPTOSDK_ERR_BAD_CIPHERTEXT, enc_ctx0, cursor1, m)
             else deserialize_loop alloc 0 (unat elem_count) enc_ctx0 cursor1 m))"

subsection \<open>The size of the encoding\<close>

text \<open>
  \<open>aws_add_size_checked\<close> adds two values of \<open>size_t\<close> and raises an error instead of
  wrapping around; \<open>aws_add_size_checked_varargs\<close> adds its arguments to an accumulator
  that starts at 0, one checked addition after the other.
\<close>

definition aws_add_size_checked :: "nat \<Rightarrow> nat \<Rightarrow> error + nat" where
  "aws_add_size_checked a b =
     (if a + b > SIZE_MAX then Inl AWS_ERROR_OVERFLOW_DETECTED else Inr (a + b))"

primrec add_size_checked_loop :: "nat \<Rightarrow> nat list \<Rightarrow> error + nat" where
  "add_size_checked_loop accum [] = Inr accum"
| "add_size_checked_loop accum (x # args) =
     (case aws_add_size_checked accum x of
        Inl e \<Rightarrow> Inl e
      | Inr accum' \<Rightarrow> add_size_checked_loop accum' args)"

definition aws_add_size_checked_varargs :: "nat list \<Rightarrow> error + nat" where
  "aws_add_size_checked_varargs args = add_size_checked_loop 0 args"

text \<open>The loop of \<open>aws_cryptosdk_enc_ctx_size\<close> over the elements of the table.\<close>

fun size_loop :: "nat \<Rightarrow> aws_hash_element list \<Rightarrow> error + nat" where
  "size_loop serialized_len [] = Inr serialized_len"
| "size_loop serialized_len ((key, val) # iter) =
     (case aws_add_size_checked_varargs [serialized_len, len key, len val, 4] of
        Inl e \<Rightarrow> Inl e
      | Inr serialized_len' \<Rightarrow>
          if serialized_len' > UINT16_MAX then Inl AWS_CRYPTOSDK_ERR_LIMIT_EXCEEDED
          else size_loop serialized_len' iter)"

definition aws_cryptosdk_enc_ctx_size :: "aws_hash_table \<Rightarrow> error + nat" where
  "aws_cryptosdk_enc_ctx_size enc_ctx =
     (let entry_count = aws_hash_table_get_entry_count enc_ctx in
      if entry_count > UINT16_MAX then Inl AWS_CRYPTOSDK_ERR_LIMIT_EXCEEDED
      else if entry_count = 0 then Inr 0
      else size_loop 2 enc_ctx)"

subsection \<open>The byte buffer\<close>

text \<open>
  A buffer is the list of the bytes written so far (its \<open>len\<close> is their number) and a
  capacity.  A write that does not fit fails and leaves the buffer as it is.
  \<open>aws_byte_buf_clean_up\<close> releases the storage and zeroes the structure.
\<close>

record aws_byte_buf =
  buffer :: "byte list"
  capacity :: nat

definition aws_byte_buf_is_valid :: "aws_byte_buf \<Rightarrow> bool" where
  "aws_byte_buf_is_valid buf = (length (buffer buf) \<le> capacity buf)"

definition aws_byte_buf_write :: "aws_byte_buf \<Rightarrow> byte list \<Rightarrow> aws_byte_buf option" where
  "aws_byte_buf_write buf src =
     (if length (buffer buf) + length src > capacity buf then None
      else Some (buf\<lparr>buffer := buffer buf @ src\<rparr>))"

definition be16 :: "uint16_t \<Rightarrow> byte list" where
  "be16 x = [ucast (drop_bit 8 x), ucast x]"

definition aws_byte_buf_write_be16 :: "aws_byte_buf \<Rightarrow> uint16_t \<Rightarrow> aws_byte_buf option" where
  "aws_byte_buf_write_be16 buf x = aws_byte_buf_write buf (be16 x)"

definition aws_byte_buf_write_from_whole_string :: "aws_byte_buf \<Rightarrow> aws_string \<Rightarrow> aws_byte_buf option" where
  "aws_byte_buf_write_from_whole_string buf s = aws_byte_buf_write buf (bytes s)"

definition aws_byte_buf_clean_up :: "aws_byte_buf \<Rightarrow> aws_byte_buf" where
  "aws_byte_buf_clean_up buf = \<lparr>buffer = [], capacity = 0\<rparr>"

subsection \<open>Serialization\<close>

text \<open>
  Modelled from the spec: \<open>aws_cryptosdk_hash_elems_array_init\<close> and the comparator
  \<open>aws_cryptosdk_compare_hash_elems_by_key_string\<close> are defined in utils.c, which is
  not among the sources.  The specification says: take a snapshot array of all (key,
  value) entries, and sort it by byte-lexicographic comparison of the key's raw bytes.
  The array is allocated, which can fail.  Bytes compare as unsigned numbers, and a proper
  prefix comes before the longer string: this is the order \<open><\<close> on \<open>byte list\<close>.
  \<open>aws_array_list_sort\<close> is the C library's \<open>qsort\<close>, which may order elements of equal
  keys in any way; a valid table has none.
\<close>

definition aws_cryptosdk_hash_elems_array_init ::
  "nat \<Rightarrow> aws_hash_table \<Rightarrow> memory \<Rightarrow> aws_hash_element list option \<times> memory" where
  "aws_cryptosdk_hash_elems_array_init alloc enc_ctx m =
     (case mem_acquire m of
        (False, m') \<Rightarrow> (None, m')
      | (True, m') \<Rightarrow> (Some enc_ctx, m'))"

text \<open>
  Modelled from the spec: the array is sorted with the comparator of utils.c, by
  byte-lexicographic comparison of the key's raw bytes.
\<close>

definition aws_array_list_sort :: "aws_hash_element list \<Rightarrow> aws_hash_element list" where
  "aws_array_list_sort elems = sort_key (\<lambda>e. bytes (fst e)) elems"

type_synonym serialize_result = "(error + unit) \<times> aws_byte_buf \<times> memory"

text \<open>
  The loop \<open>for (size_t idx = 0; idx < num_elems; ++idx)\<close>.  A failed
  \<open>aws_array_list_get_at_ptr\<close> returns the error with the output as written so far; a
  failed write jumps to \<open>WRITE_ERR\<close>, which cleans the output up.  The casts
  \<open>(uint16_t)key->len\<close> and \<open>(uint16_t)value->len\<close> keep the low 16 bits.
\<close>

function serialize_loop ::
  "nat \<Rightarrow> nat \<Rightarrow> aws_hash_element list \<Rightarrow> aws_byte_buf \<Rightarrow> (error + unit) \<times> aws_byte_buf" where
  "serialize_loop idx num_elems elems output =
     (if idx < num_elems then
        (if length elems \<le> idx then (Inl AWS_ERROR_INVALID_INDEX, output)
         else
           (case elems ! idx of (key, val) \<Rightarrow>
           (case aws_byte_buf_write_be16 output (of_nat (len key)) of
              None \<Rightarrow> (Inl AWS_ERROR_SHORT_BUFFER, aws_byte_buf_clean_up output)
            | Some output1 \<Rightarrow>
           (case aws_byte_buf_write_from_whole_string output1 key of
              None \<Rightarrow> (Inl AWS_ERROR_SHORT_BUFFER, aws_byte_buf_clean_up output1)
            | Some output2 \<Rightarrow>
           (case aws_byte_buf_write_be16 output2 (of_nat (len val)) of
              None \<Rightarrow> (Inl AWS_ERROR_SHORT_BUFFER, aws_byte_buf_clean_up output2)
            | Some output3 \<Rightarrow>
           (case aws_byte_buf_write_from_whole_string output3 val of
              None \<Rightarrow> (Inl AWS_ERROR_SHORT_BUFFER, aws_byte_buf_clean_up output3)
            | Some output4 \<Rightarrow> serialize_loop (idx + 1) num_elems elems output4))))))
      else (Inr (), output))"
  by pat_completeness auto
termination
  by (relation "measure (\<lambda>(idx, num_elems, elems, output). num_elems - idx)") auto

declare serialize_loop.simps [simp del]

definition aws_cryptosdk_enc_ctx_serialize ::
  "nat \<Rightarrow> aws_byte_buf \<Rightarrow> aws_hash_table \<Rightarrow> memory \<Rightarrow> serialize_result" where
  "aws_cryptosdk_enc_ctx_serialize alloc output enc_ctx m =
     (let num_elems = aws_hash_table_get_entry_count enc_ctx in
      if num_elems > UINT16_MAX then (Inl AWS_CRYPTOSDK_ERR_LIMIT_EXCEEDED, output, m)
      else
        (case aws_cryptosdk_enc_ctx_size enc_ctx of
           Inl e \<Rightarrow> (Inl e, output, m)
         | Inr length_ \<Rightarrow>
             if length_ = 0 then (Inr (), output, m)
             else if capacity output < length_ then (Inl AWS_ERROR_SHORT_BUFFER, output, m)
             else
               (case aws_byte_buf_write_be16 output (of_nat num_elems) of
                  None \<Rightarrow> (Inl AWS_ERROR_SHORT_BUFFER, aws_byte_buf_clean_up output, m)
                | Some output1 \<Rightarrow>
                    (case aws_cryptosdk_hash_elems_array_init alloc enc_ctx m of
                       (None, m') \<Rightarrow> (Inl AWS_ERROR_OOM, output1, m')
                     | (Some elems, m') \<Rightarrow>
                         (case serialize_loop 0 num_elems (aws_array_list_sort elems) output1 of
                            (r, output') \<Rightarrow> (r, output', m'))))))"

subsection \<open>Clone\<close>

definition clone_or_reuse_string :: "nat \<Rightarrow> aws_string \<Rightarrow> memory \<Rightarrow> aws_string option \<times> memory" where
  "clone_or_reuse_string alloc str m =
     (if allocator str = None then (Some str, m)
      else aws_string_new_from_array alloc (bytes str) m)"

text \<open>
  The first loop of \<open>aws_cryptosdk_enc_ctx_clone\<close> visits every element of the
  destination and deletes those whose key the source does not hold.
\<close>

fun clone_prune_loop :: "aws_hash_table \<Rightarrow> aws_hash_element list \<Rightarrow> aws_hash_table" where
  "clone_prune_loop src [] = []"
| "clone_prune_loop src ((key, val) # iter) =
     (case aws_hash_table_find src key of
        None \<Rightarrow> clone_prune_loop src iter
      | Some src_elem \<Rightarrow> (key, val) # clone_prune_loop src iter)"

text \<open>
  The second loop visits every element of the source.  \<open>dest_elem->value = value\<close>
  changes the value of the element found and keeps its key.
\<close>

fun clone_update_loop ::
  "nat \<Rightarrow> aws_hash_element list \<Rightarrow> aws_hash_table \<Rightarrow> memory \<Rightarrow> (error + unit) \<times> aws_hash_table \<times> memory" where
  "clone_update_loop alloc [] dest m = (Inr (), dest, m)"
| "clone_update_loop alloc ((key, val) # iter) dest m =
     (case aws_hash_table_find dest key of
        Some dest_elem \<Rightarrow>
          if \<not> aws_string_eq (snd dest_elem) val then
            (case clone_or_reuse_string alloc val m of
               (None, m1) \<Rightarrow> (Inl AWS_ERROR_OOM, dest, m1)
             | (Some val', m1) \<Rightarrow>
                 clone_update_loop alloc iter (update_elem key (fst dest_elem, val') dest) m1)
          else clone_update_loop alloc iter dest m
      | None \<Rightarrow>
          (case clone_or_reuse_string alloc key m of (key', m1) \<Rightarrow>
          (case clone_or_reuse_string alloc val m1 of (val', m2) \<Rightarrow>
          (case (key', val') of
             (Some k, Some v) \<Rightarrow>
               (case aws_hash_table_put dest k v m2 of
                  (Inl e, dest', m3) \<Rightarrow> (Inl e, dest', m3)
                | (Inr was_created, dest', m3) \<Rightarrow> clone_update_loop alloc iter dest' m3)
           | _ \<Rightarrow> (Inl AWS_ERROR_OOM, dest, m2)))))"

definition aws_cryptosdk_enc_ctx_clone ::
  "nat \<Rightarrow> aws_hash_table \<Rightarrow> aws_hash_table \<Rightarrow> memory \<Rightarrow> (error + unit) \<times> aws_hash_table \<times> memory" where
  "aws_cryptosdk_enc_ctx_clone alloc dest src m =
     clone_update_loop alloc src (clone_prune_loop src dest) m"

subsection \<open>The wire format\<close>

text \<open>
  The encoding that the specification describes: a 16-bit big-endian count, then for each
  entry the 16-bit big-endian length of the key, the key, the 16-bit big-endian length of
  the value, and the value.
\<close>

definition encode_entry :: "byte list \<times> byte list \<Rightarrow> byte list" where
  "encode_entry e =
     be16 (of_nat (length (fst e))) @ fst e @ be16 (of_nat (length (snd e))) @ snd e"

definition encode_entries :: "(byte list \<times> byte list) list \<Rightarrow> byte list" where
  "encode_entries es = be16 (of_nat (length es)) @ concat (map encode_entry es)"

text \<open>
  The number of bytes of an entry on the wire, and of the encoding of a table that is not
  empty: 2 for the count and the sum of the sizes of the entries.
\<close>

definition entry_size :: "aws_hash_element \<Rightarrow> nat" where
  "entry_size e = 4 + len (fst e) + len (snd e)"

definition encoded_size :: "aws_hash_table \<Rightarrow> nat" where
  "encoded_size t = 2 + sum_list (map entry_size t)"

text \<open>
  The encoding of an element of a table, and the bytes that the specification asks of the
  serializer: nothing for the empty table, and otherwise the count followed by the
  entries in the order of the sorted array.
\<close>

definition encode_elem :: "aws_hash_element \<Rightarrow> byte list" where
  "encode_elem e = encode_entry (bytes (fst e), bytes (snd e))"

definition canonical_encoding :: "aws_hash_table \<Rightarrow> byte list" where
  "canonical_encoding t =
     (if t = [] then [] else encode_entries (contents (aws_array_list_sort t)))"

text \<open>A memory in which no allocation fails.\<close>

definition no_faults :: "memory \<Rightarrow> bool" where
  "no_faults m = (True \<notin> set (faults m))"

text \<open>The keys of a table, as byte strings.\<close>

definition keys :: "aws_hash_table \<Rightarrow> byte list set" where
  "keys t = set (map (\<lambda>e. bytes (fst e)) t)"

text \<open>The content of a table as a map from key bytes to value bytes.\<close>

definition lookup :: "aws_hash_table \<Rightarrow> byte list \<rightharpoonup> byte list" where
  "lookup t = map_of (contents t)"

text \<open>The string references that a table holds, as keys and as values.\<close>

definition strings :: "aws_hash_table \<Rightarrow> aws_string set" where
  "strings t = fst ` set t \<union> snd ` set t"

text \<open>
  What the copy-or-reuse policy allows a string \<open>s\<close> of the destination to be after a
  clone that started in memory \<open>m\<close>: a reference that the destination held before, or a
  reference to a string of the source that has no allocator, or a string owned by the
  allocator of the call at an address that was unused when the clone started, with the
  bytes of a string of the source that has an allocator.
\<close>

definition clone_policy :: "nat \<Rightarrow> memory \<Rightarrow> aws_hash_table \<Rightarrow> aws_hash_table \<Rightarrow> aws_string \<Rightarrow> bool" where
  "clone_policy alloc m src dest s \<longleftrightarrow>
     s \<in> strings dest \<or>
     (s \<in> strings src \<and> allocator s = None) \<or>
     (allocator s = Some alloc \<and> next_addr m \<le> addr s \<and>
      (\<exists>s0 \<in> strings src. allocator s0 \<noteq> None \<and> bytes s = bytes s0))"

section \<open>Deserialization: failure, ownership, accepted and rejected inputs\<close>

lemma RETHROW_empty: "RETHROW e t c m = (r, t', c', m') \<Longrightarrow> t' = []"
  by (auto simp: RETHROW_def aws_cryptosdk_enc_ctx_clear_def)

lemma SHORT_BUF_empty: "SHORT_BUF t c m = (r, t', c', m') \<Longrightarrow> t' = []"
  by (auto simp: SHORT_BUF_def dest: RETHROW_empty)

lemma deserialize_body_exit_empty:
  "deserialize_body alloc t c m = Inl (r, t', c', m') \<Longrightarrow> t' = []"
  unfolding deserialize_body_def
  by (auto split: option.splits prod.splits sum.splits if_splits
      dest: RETHROW_empty SHORT_BUF_empty)

lemma deserialize_loop_cases:
  assumes "deserialize_loop alloc i n t c m = res"
  obtains (stop) "\<not> i < n" "res = (Inr (), t, c, m)"
  | (jump) "i < n" "deserialize_body alloc t c m = Inl res"
  | (iter) t1 c1 m1 where "i < n" "deserialize_body alloc t c m = Inr (t1, c1, m1)"
      "deserialize_loop alloc (i + 1) n t1 c1 m1 = res"
  using assms
  by (subst (asm) deserialize_loop.simps) (auto split: if_splits sum.splits)

lemma deserialize_loop_error_empty:
  "deserialize_loop alloc i n t c m = (Inl e, t', c', m') \<Longrightarrow> t' = []"
proof (induction "n - i" arbitrary: i t c m)
  case 0
  from "0.prems" show ?case
  proof (cases rule: deserialize_loop_cases)
    case stop
    then show ?thesis by simp
  next
    case jump
    then show ?thesis by (auto dest: deserialize_body_exit_empty)
  next
    case (iter t1 c1 m1)
    with "0.hyps" show ?thesis by simp
  qed
next
  case (Suc d)
  from Suc.prems show ?case
  proof (cases rule: deserialize_loop_cases)
    case stop
    then show ?thesis by simp
  next
    case jump
    then show ?thesis by (auto dest: deserialize_body_exit_empty)
  next
    case (iter t1 c1 m1)
    with Suc.hyps(2) have "d = n - (i + 1)" by simp
    from Suc.hyps(1) [OF this iter(3)] show ?thesis .
  qed
qed

text \<open>
  Claim C4.  Whenever \<open>aws_cryptosdk_enc_ctx_deserialize\<close> returns an error, whatever the
  cursor, the memory and the table it was given, the table it leaves is empty.
\<close>

theorem deserialize_failure_leaves_empty:
  assumes "aws_cryptosdk_enc_ctx_deserialize alloc enc_ctx cursor m = (Inl e, enc_ctx', cursor', m')"
  shows "enc_ctx' = []"
  using assms
  unfolding aws_cryptosdk_enc_ctx_deserialize_def Let_def
  by (auto simp: aws_cryptosdk_enc_ctx_clear_def
      split: if_splits option.splits prod.splits
      dest: SHORT_BUF_empty deserialize_loop_error_empty)


lemma deserialize_loop_invariant:
  assumes "deserialize_loop alloc i n t c m = (r, t', c', m')"
    and "P t" and "P []"
    and step: "\<And>t c m t1 c1 m1. P t \<Longrightarrow> deserialize_body alloc t c m = Inr (t1, c1, m1) \<Longrightarrow> P t1"
  shows "P t'"
  using assms(1,2)
proof (induction "n - i" arbitrary: i t c m)
  case 0
  from "0.prems"(1) show ?case
  proof (cases rule: deserialize_loop_cases)
    case stop
    with "0.prems" show ?thesis by simp
  next
    case jump
    with assms(3) show ?thesis by (auto dest: deserialize_body_exit_empty)
  next
    case (iter t1 c1 m1)
    with "0.hyps" show ?thesis by simp
  qed
next
  case (Suc d)
  from Suc.prems(1) show ?case
  proof (cases rule: deserialize_loop_cases)
    case stop
    with Suc.prems show ?thesis by simp
  next
    case jump
    with assms(3) show ?thesis by (auto dest: deserialize_body_exit_empty)
  next
    case (iter t1 c1 m1)
    with Suc.hyps(2) have "d = n - (i + 1)" by simp
    from Suc.hyps(1) [OF this iter(3) step [OF Suc.prems(2) iter(2)]] show ?thesis .
  qed
qed

text \<open>
  Claim C6.  A cursor with no bytes is accepted and gives the empty table; a cursor that
  starts with the count 0 is rejected as bad ciphertext; a cursor of one byte is rejected
  with a short buffer.  The target table is empty in all three cases and only the bytes
  of the count are consumed.
\<close>

theorem deserialize_empty_and_zero_count:
  "aws_cryptosdk_enc_ctx_deserialize alloc enc_ctx [] m = (Inr (), [], [], m) \<and>
   aws_cryptosdk_enc_ctx_deserialize alloc enc_ctx (0 # 0 # rest) m =
     (Inl AWS_CRYPTOSDK_ERR_BAD_CIPHERTEXT, [], rest, m) \<and>
   aws_cryptosdk_enc_ctx_deserialize alloc enc_ctx [b] m =
     (Inl AWS_ERROR_SHORT_BUFFER, [], [b], m)"
  by (simp add: aws_cryptosdk_enc_ctx_deserialize_def aws_cryptosdk_enc_ctx_clear_def
      aws_byte_cursor_read_be16_def SHORT_BUF_def RETHROW_def)

lemma new_from_array_Some:
  "aws_string_new_from_array alloc bs m = (Some s, m') \<Longrightarrow> allocator s = Some alloc \<and> bytes s = bs"
  by (auto simp: aws_string_new_from_array_def split: prod.splits bool.splits)

lemma set_update_elem: "set (update_elem k e' t) \<subseteq> insert e' (set t)"
  by (induction t) auto

lemma set_hash_table_put:
  "aws_hash_table_put t k v m = (r, t', m') \<Longrightarrow> set t' \<subseteq> insert (k, v) (set t)"
  using set_update_elem [of k "(k, v)" t]
  by (auto simp: aws_hash_table_put_def split: option.splits prod.splits bool.splits)

lemma deserialize_body_new_elems:
  assumes "deserialize_body alloc t c m = Inr (t1, c1, m1)" and "e \<in> set t1"
  shows "e \<in> set t \<or> (allocator (fst e) = Some alloc \<and> allocator (snd e) = Some alloc)"
proof -
  from assms(1) obtain kb vb k v ma mb mc r where
    k: "aws_string_new_from_array alloc kb ma = (Some k, mb)" and
    v: "aws_string_new_from_array alloc vb mb = (Some v, mc)" and
    p: "aws_hash_table_put t k v mc = (r, t1, m1)"
    unfolding deserialize_body_def
    by (auto split: option.splits prod.splits sum.splits if_splits)
  from set_hash_table_put [OF p] assms(2) have "e = (k, v) \<or> e \<in> set t" by auto
  with new_from_array_Some [OF k] new_from_array_Some [OF v] show ?thesis by auto
qed

text \<open>
  Claim C9.  Every key and every value of the table that deserialization leaves is owned
  by the allocator of the call, which is not null; so \<open>clone_or_reuse_string\<close> never
  takes the branch that reuses the reference for such a string, it copies it.
\<close>

theorem deserialized_strings_owned:
  assumes "aws_cryptosdk_enc_ctx_deserialize alloc enc_ctx cursor m = (r, enc_ctx', cursor', m')"
  shows "\<forall>(k, v) \<in> set enc_ctx'.
           allocator k = Some alloc \<and> allocator v = Some alloc \<and>
           (\<forall>a mm. clone_or_reuse_string a k mm = aws_string_new_from_array a (bytes k) mm \<and>
                   clone_or_reuse_string a v mm = aws_string_new_from_array a (bytes v) mm)"
proof -
  let ?P = "\<lambda>t. \<forall>e \<in> set t. allocator (fst e) = Some alloc \<and> allocator (snd e) = Some alloc"
  have "?P enc_ctx'"
  proof (cases "cursor = [] \<or> aws_byte_cursor_read_be16 cursor = None \<or>
      (\<exists>c1. aws_byte_cursor_read_be16 cursor = Some (0, c1))")
    case True
    with assms have "enc_ctx' = []"
      unfolding aws_cryptosdk_enc_ctx_deserialize_def Let_def
      by (auto simp: aws_cryptosdk_enc_ctx_clear_def split: if_splits dest: SHORT_BUF_empty)
    then show ?thesis by simp
  next
    case False
    with assms obtain n c1 where
      l: "deserialize_loop alloc 0 n [] c1 m = (r, enc_ctx', cursor', m')"
      unfolding aws_cryptosdk_enc_ctx_deserialize_def Let_def
      by (auto simp: aws_cryptosdk_enc_ctx_clear_def split: option.splits if_splits)
    show ?thesis
      by (rule deserialize_loop_invariant [OF l, where P = ?P])
        (auto dest: deserialize_body_new_elems)
  qed
  then show ?thesis
    by (auto simp: clone_or_reuse_string_def)
qed


lemma read_be16_be16: "aws_byte_cursor_read_be16 (be16 x @ rest) = Some (x, rest)"
proof -
  have "push_bit 8 (ucast (ucast (drop_bit 8 x) :: byte)) OR ucast (ucast x :: byte) = x"
    by (rule bit_word_eqI) (auto simp add: bit_simps)
  then show ?thesis
    by (simp add: aws_byte_cursor_read_be16_def be16_def)
qed

lemma length_be16 [simp]: "length (be16 x) = 2"
  by (simp add: be16_def)

lemma be16_not_Nil [simp]: "be16 x \<noteq> []"
  by (simp add: be16_def)

lemma unat_of_nat_uint16: "n \<le> 65535 \<Longrightarrow> unat (of_nat n :: uint16_t) = n"
  by (simp add: unat_of_nat)

lemma of_nat_uint16_eq_0: "n \<le> 65535 \<Longrightarrow> (of_nat n :: uint16_t) = 0 \<longleftrightarrow> n = 0"
proof
  assume "n \<le> 65535" "(of_nat n :: uint16_t) = 0"
  then have "unat (of_nat n :: uint16_t) = 0" by simp
  with \<open>n \<le> 65535\<close> show "n = 0" by (simp add: unat_of_nat_uint16)
qed simp

lemma advance_nospec_append:
  "aws_byte_cursor_advance_nospec (xs @ rest) (length xs) = Some (xs, rest)"
  by (simp add: aws_byte_cursor_advance_nospec_def)

lemma mem_acquire_no_faults:
  "no_faults m \<Longrightarrow> \<exists>m'. mem_acquire m = (True, m') \<and> no_faults m' \<and> next_addr m' = next_addr m"
  by (cases "faults m") (auto simp: mem_acquire_def no_faults_def)

lemma new_from_array_no_faults:
  assumes "no_faults m"
  shows "\<exists>s m'. aws_string_new_from_array alloc bs m = (Some s, m') \<and> bytes s = bs \<and>
           allocator s = Some alloc \<and> addr s = next_addr m \<and> no_faults m' \<and>
           next_addr m' = Suc (next_addr m)"
proof -
  from mem_acquire_no_faults [OF assms] obtain m1 where
    "mem_acquire m = (True, m1)" "no_faults m1" "next_addr m1 = next_addr m" by blast
  then show ?thesis
    by (simp add: aws_string_new_from_array_def no_faults_def)
qed

lemma find_None_iff_keys: "aws_hash_table_find t k = None \<longleftrightarrow> bytes k \<notin> keys t"
  by (force simp: aws_hash_table_find_def keys_def find_None_iff aws_string_eq_def)

lemma put_new_no_faults:
  assumes "no_faults m" "bytes k \<notin> keys t"
  shows "\<exists>m'. aws_hash_table_put t k v m = (Inr True, t @ [(k, v)], m') \<and> no_faults m' \<and>
           next_addr m' = next_addr m"
proof -
  from assms(2) have "aws_hash_table_find t k = None" by (simp add: find_None_iff_keys)
  with mem_acquire_no_faults [OF assms(1)] show ?thesis
    by (auto simp: aws_hash_table_put_def)
qed

lemma put_existing:
  assumes "bytes k \<in> keys t"
  shows "aws_hash_table_put t k v m = (Inr False, update_elem k (k, v) t, m)"
proof -
  from assms have "aws_hash_table_find t k \<noteq> None" by (simp add: find_None_iff_keys)
  then show ?thesis by (auto simp: aws_hash_table_put_def)
qed

lemma deserialize_body_read:
  assumes "length kb \<le> 65535" "length vb \<le> 65535"
  shows "deserialize_body alloc t (encode_entry (kb, vb) @ rest) m =
    (case aws_string_new_from_array alloc kb m of (k, m1) \<Rightarrow>
     (case aws_string_new_from_array alloc vb m1 of (v, m2) \<Rightarrow>
     (case (k, v) of
        (Some k', Some v') \<Rightarrow>
          (case aws_hash_table_put t k' v' m2 of
             (Inl e, enc_ctx', m3) \<Rightarrow> Inl (RETHROW e enc_ctx' rest m3)
           | (Inr was_created, enc_ctx', m3) \<Rightarrow>
               if \<not> was_created
               then Inl (RETHROW AWS_CRYPTOSDK_ERR_BAD_CIPHERTEXT enc_ctx' rest m3)
               else Inr (enc_ctx', rest, m3))
      | _ \<Rightarrow> Inl (RETHROW AWS_ERROR_OOM t rest m2))))"
  using assms
  by (simp add: deserialize_body_def encode_entry_def read_be16_be16 unat_of_nat_uint16
      advance_nospec_append)

lemma deserialize_body_new_key:
  assumes "length kb \<le> 65535" "length vb \<le> 65535" "no_faults m" "kb \<notin> keys t"
  shows "\<exists>k v m'. deserialize_body alloc t (encode_entry (kb, vb) @ rest) m =
             Inr (t @ [(k, v)], rest, m') \<and> bytes k = kb \<and> bytes v = vb \<and> no_faults m'"
proof -
  from new_from_array_no_faults [OF assms(3)] obtain k m1 where
    k: "aws_string_new_from_array alloc kb m = (Some k, m1)" "bytes k = kb" "no_faults m1"
    by blast
  from new_from_array_no_faults [OF k(3)] obtain v m2 where
    v: "aws_string_new_from_array alloc vb m1 = (Some v, m2)" "bytes v = vb" "no_faults m2"
    by blast
  from put_new_no_faults [OF v(3), of k t v] assms(4) k(2) obtain m3 where
    p: "aws_hash_table_put t k v m2 = (Inr True, t @ [(k, v)], m3)" "no_faults m3"
    by auto
  show ?thesis
    using k v p by (simp add: deserialize_body_read [OF assms(1,2)])
qed

lemma deserialize_body_duplicate_key:
  assumes "length kb \<le> 65535" "length vb \<le> 65535" "no_faults m" "kb \<in> keys t"
  shows "\<exists>m'. deserialize_body alloc t (encode_entry (kb, vb) @ rest) m =
             Inl (Inl AWS_CRYPTOSDK_ERR_BAD_CIPHERTEXT, [], rest, m')"
proof -
  from new_from_array_no_faults [OF assms(3)] obtain k m1 where
    k: "aws_string_new_from_array alloc kb m = (Some k, m1)" "bytes k = kb" "no_faults m1"
    by blast
  from new_from_array_no_faults [OF k(3)] obtain v m2 where
    v: "aws_string_new_from_array alloc vb m1 = (Some v, m2)" "bytes v = vb" "no_faults m2"
    by blast
  from assms(4) k(2) have "bytes k \<in> keys t" by simp
  from put_existing [OF this] k v show ?thesis
    by (simp add: deserialize_body_read [OF assms(1,2)] RETHROW_def aws_cryptosdk_enc_ctx_clear_def)
qed

lemma deserialize_loop_entries:
  assumes "\<forall>e \<in> set es. length (fst e) \<le> 65535 \<and> length (snd e) \<le> 65535"
    and "distinct (map fst es)" and "fst ` set es \<inter> keys t = {}"
    and "no_faults m" and "i + length es \<le> n"
  shows "\<exists>t' m'. deserialize_loop alloc i n t (concat (map encode_entry es) @ rest) m =
              deserialize_loop alloc (i + length es) n t' rest m' \<and>
            contents t' = contents t @ es \<and> no_faults m'"
  using assms
proof (induction es arbitrary: i t m)
  case Nil
  then show ?case by auto
next
  case (Cons e es)
  obtain kb vb where e: "e = (kb, vb)" by (cases e)
  from Cons.prems e have b: "length kb \<le> 65535" "length vb \<le> 65535" "kb \<notin> keys t"
    by auto
  from deserialize_body_new_key [OF b(1,2) Cons.prems(4) b(3)] obtain k v m1 where
    body: "deserialize_body alloc t (encode_entry (kb, vb) @ concat (map encode_entry es) @ rest) m =
             Inr (t @ [(k, v)], concat (map encode_entry es) @ rest, m1)"
    and kv: "bytes k = kb" "bytes v = vb" and m1: "no_faults m1"
    by blast
  from Cons.prems(5) have lt: "i < n" by simp
  have step: "deserialize_loop alloc i n t (concat (map encode_entry (e # es)) @ rest) m =
      deserialize_loop alloc (i + 1) n (t @ [(k, v)]) (concat (map encode_entry es) @ rest) m1"
    using lt body e by (subst deserialize_loop.simps) simp
  have disj: "fst ` set es \<inter> keys (t @ [(k, v)]) = {}"
    using Cons.prems(2,3) kv e by (auto simp: keys_def)
  from Cons.prems have "\<forall>e \<in> set es. length (fst e) \<le> 65535 \<and> length (snd e) \<le> 65535"
    "distinct (map fst es)" "i + 1 + length es \<le> n" by auto
  from Cons.IH [OF this(1,2) disj m1 this(3)] obtain t' m' where
    "deserialize_loop alloc (i + 1) n (t @ [(k, v)]) (concat (map encode_entry es) @ rest) m1 =
       deserialize_loop alloc (i + 1 + length es) n t' rest m'"
    "contents t' = contents (t @ [(k, v)]) @ es" "no_faults m'"
    by blast
  with step kv e show ?case
    by (auto simp: contents_def)
qed

lemma deserialize_encoded_entries:
  assumes "es \<noteq> []" and "length es \<le> 65535"
    and "\<forall>e \<in> set es. length (fst e) \<le> 65535 \<and> length (snd e) \<le> 65535"
    and "distinct (map fst es)" and "no_faults m"
  shows "\<exists>enc_ctx' m'.
           aws_cryptosdk_enc_ctx_deserialize alloc enc_ctx (encode_entries es @ trailing) m =
             (Inr (), enc_ctx', trailing, m') \<and>
           contents enc_ctx' = es"
proof -
  from deserialize_loop_entries [OF assms(3,4) _ assms(5), of "[]" 0 "length es" alloc trailing]
  obtain t' m' where
    l: "deserialize_loop alloc 0 (length es) [] (concat (map encode_entry es) @ trailing) m =
          deserialize_loop alloc (length es) (length es) t' trailing m'"
    and c: "contents t' = es"
    by (auto simp: keys_def contents_def)
  have "deserialize_loop alloc (length es) (length es) t' trailing m' = (Inr (), t', trailing, m')"
    by (subst deserialize_loop.simps) simp
  with l assms(1,2) c show ?thesis
    by (simp add: aws_cryptosdk_enc_ctx_deserialize_def encode_entries_def read_be16_be16
        aws_cryptosdk_enc_ctx_clear_def unat_of_nat_uint16 of_nat_uint16_eq_0)
qed

text \<open>
  Claim C10.  When the cursor starts with the encoding of a positive number of entries
  with pairwise different keys, and no allocation fails, deserialization succeeds, the
  table holds exactly these entries, and the bytes after the encoding stay in the cursor.
\<close>

theorem deserialize_accepts_trailing_bytes:
  assumes "es \<noteq> []" and "length es \<le> 65535"
    and "\<forall>e \<in> set es. length (fst e) \<le> 65535 \<and> length (snd e) \<le> 65535"
    and "distinct (map fst es)" and "no_faults m"
  shows "\<exists>enc_ctx' m'.
           aws_cryptosdk_enc_ctx_deserialize alloc enc_ctx (encode_entries es @ trailing) m =
             (Inr (), enc_ctx', trailing, m') \<and>
           contents enc_ctx' = es"
  using assms by (rule deserialize_encoded_entries)


lemma keys_contents: "keys t = fst ` set (contents t)"
  by (force simp: keys_def contents_def)

text \<open>
  Claim C5.  The cursor declares \<open>count\<close> entries; the entries \<open>es\<close> have pairwise
  different keys and the next entry, still within the count, repeats one of their keys.
  When no allocation fails, deserialization fails with bad ciphertext and leaves the table
  empty, whatever follows the repeated entry.
\<close>

theorem deserialize_rejects_duplicate_key:
  assumes "\<forall>e \<in> set es. length (fst e) \<le> 65535 \<and> length (snd e) \<le> 65535"
    and "length kb \<le> 65535" and "length vb \<le> 65535"
    and "distinct (map fst es)" and "kb \<in> fst ` set es"
    and "length es < unat count" and "no_faults m"
  shows "\<exists>m'. aws_cryptosdk_enc_ctx_deserialize alloc enc_ctx
             (be16 count @ concat (map encode_entry es) @ encode_entry (kb, vb) @ rest) m =
           (Inl AWS_CRYPTOSDK_ERR_BAD_CIPHERTEXT, [], rest, m')"
proof -
  from assms(6) have nz: "count \<noteq> 0" by auto
  from assms(6) have le: "0 + length es \<le> unat count" by simp
  from deserialize_loop_entries [OF assms(1,4) _ assms(7) le, of "[]" alloc "encode_entry (kb, vb) @ rest"]
  obtain t' m1 where
    l: "deserialize_loop alloc 0 (unat count) []
          (concat (map encode_entry es) @ encode_entry (kb, vb) @ rest) m =
        deserialize_loop alloc (length es) (unat count) t' (encode_entry (kb, vb) @ rest) m1"
    and c: "contents t' = es" and m1: "no_faults m1"
    by (auto simp: keys_def contents_def)
  from c assms(5) have "kb \<in> keys t'" by (simp add: keys_contents)
  from deserialize_body_duplicate_key [OF assms(2,3) m1 this] obtain m2 where
    "deserialize_body alloc t' (encode_entry (kb, vb) @ rest) m1 =
       Inl (Inl AWS_CRYPTOSDK_ERR_BAD_CIPHERTEXT, [], rest, m2)"
    by blast
  with assms(6) have
    "deserialize_loop alloc (length es) (unat count) t' (encode_entry (kb, vb) @ rest) m1 =
       (Inl AWS_CRYPTOSDK_ERR_BAD_CIPHERTEXT, [], rest, m2)"
    by (subst deserialize_loop.simps) simp
  with l nz show ?thesis
    by (simp add: aws_cryptosdk_enc_ctx_deserialize_def read_be16_be16
        aws_cryptosdk_enc_ctx_clear_def)
qed

lemmas deserialize_eval =
  aws_cryptosdk_enc_ctx_deserialize_def deserialize_loop.simps deserialize_body_def
  aws_byte_cursor_read_be16_def aws_byte_cursor_advance_nospec_def
  aws_string_new_from_array_def mem_acquire_def aws_hash_table_put_def
  aws_hash_table_find_def aws_string_eq_def RETHROW_def SHORT_BUF_def
  aws_cryptosdk_enc_ctx_clear_def

text \<open>
  A table that holds one entry and a cursor that declares one entry with a key of five
  bytes, of which one is there: the call fails with a short buffer and the table is empty.
\<close>

theorem deserialize_failure_leaves_empty_witness:
  "fst (aws_cryptosdk_enc_ctx_deserialize 1
          [(\<lparr>addr = 0, allocator = None, bytes = [1]\<rparr>, \<lparr>addr = 1, allocator = None, bytes = [2]\<rparr>)]
          [0, 1, 0, 5, 7] \<lparr>next_addr = 2, faults = []\<rparr>) = Inl AWS_ERROR_SHORT_BUFFER \<and>
   fst (snd (aws_cryptosdk_enc_ctx_deserialize 1
          [(\<lparr>addr = 0, allocator = None, bytes = [1]\<rparr>, \<lparr>addr = 1, allocator = None, bytes = [2]\<rparr>)]
          [0, 1, 0, 5, 7] \<lparr>next_addr = 2, faults = []\<rparr>)) = []"
proof -
  let ?r = "aws_cryptosdk_enc_ctx_deserialize 1
          [(\<lparr>addr = 0, allocator = None, bytes = [1]\<rparr>, \<lparr>addr = 1, allocator = None, bytes = [2]\<rparr>)]
          [0, 1, 0, 5, 7] \<lparr>next_addr = 2, faults = []\<rparr>"
  have r: "?r = (Inl AWS_ERROR_SHORT_BUFFER, fst (snd ?r), [7], \<lparr>next_addr = 2, faults = []\<rparr>)"
    by (simp add: deserialize_eval)
  from deserialize_failure_leaves_empty [OF r] r show ?thesis
    by simp
qed

text \<open>The count 2 and the key 7 twice, read into a table that held an entry.\<close>

theorem deserialize_rejects_duplicate_key_witness:
  "fst (aws_cryptosdk_enc_ctx_deserialize 1
          [(\<lparr>addr = 0, allocator = None, bytes = [1]\<rparr>, \<lparr>addr = 1, allocator = None, bytes = [2]\<rparr>)]
          [0, 2, 0, 1, 7, 0, 1, 8, 0, 1, 7, 0, 0, 9] \<lparr>next_addr = 2, faults = []\<rparr>) =
     Inl AWS_CRYPTOSDK_ERR_BAD_CIPHERTEXT \<and>
   fst (snd (aws_cryptosdk_enc_ctx_deserialize 1
          [(\<lparr>addr = 0, allocator = None, bytes = [1]\<rparr>, \<lparr>addr = 1, allocator = None, bytes = [2]\<rparr>)]
          [0, 2, 0, 1, 7, 0, 1, 8, 0, 1, 7, 0, 0, 9] \<lparr>next_addr = 2, faults = []\<rparr>)) = []"
  using deserialize_rejects_duplicate_key [of "[([7], [8])]" "[7]" "[]" 2
      "\<lparr>next_addr = 2, faults = []\<rparr>" 1
      "[(\<lparr>addr = 0, allocator = None, bytes = [1]\<rparr>, \<lparr>addr = 1, allocator = None, bytes = [2]\<rparr>)]" "[9]"]
  by (auto simp: encode_entry_def be16_def no_faults_def)

text \<open>Two entries followed by the byte 9, which is left in the cursor.\<close>

theorem deserialize_accepts_trailing_bytes_witness:
  "\<exists>enc_ctx' m'.
     aws_cryptosdk_enc_ctx_deserialize 1 [] [0, 2, 0, 1, 7, 0, 1, 8, 0, 1, 6, 0, 0, 9]
       \<lparr>next_addr = 2, faults = []\<rparr> = (Inr (), enc_ctx', [9], m') \<and>
     contents enc_ctx' = [([7], [8]), ([6], [])]"
  using deserialize_accepts_trailing_bytes [of "[([7], [8]), ([6], [])]"
      "\<lparr>next_addr = 2, faults = []\<rparr>" 1 "[]" "[9]"]
  by (simp add: encode_entries_def encode_entry_def be16_def no_faults_def)

text \<open>The two entries read from a cursor are owned by allocator 1.\<close>

theorem deserialized_strings_owned_witness:
  "map (\<lambda>e. (allocator (fst e), allocator (snd e)))
     (fst (snd (aws_cryptosdk_enc_ctx_deserialize 1 [] [0, 2, 0, 1, 7, 0, 1, 8, 0, 1, 6, 0, 0, 9]
        \<lparr>next_addr = 2, faults = []\<rparr>))) = [(Some 1, Some 1), (Some 1, Some 1)]"
proof -
  let ?r = "aws_cryptosdk_enc_ctx_deserialize 1 [] [0, 2, 0, 1, 7, 0, 1, 8, 0, 1, 6, 0, 0, 9]
        \<lparr>next_addr = 2, faults = []\<rparr>"
  have r: "?r = (Inr (), fst (snd ?r), [9], \<lparr>next_addr = 6, faults = []\<rparr>)"
    by (simp add: deserialize_eval)
  have l: "length (fst (snd ?r)) = 2"
    by (simp add: deserialize_eval)
  from deserialized_strings_owned [OF r]
  have "\<forall>e \<in> set (fst (snd ?r)). allocator (fst e) = Some 1 \<and> allocator (snd e) = Some 1"
    by auto
  with l show ?thesis
    by (auto simp: length_Suc_conv numeral_2_eq_2)
qed

section \<open>The size computation\<close>

lemma add_size_checked_varargs_4:
  "aws_add_size_checked_varargs [a, b, c, d] =
     (if a + b + c + d > SIZE_MAX then Inl AWS_ERROR_OVERFLOW_DETECTED else Inr (a + b + c + d))"
  by (simp add: aws_add_size_checked_varargs_def aws_add_size_checked_def)

lemma size_loop_step:
  "size_loop acc (e # es) =
     (if acc + entry_size e > SIZE_MAX then Inl AWS_ERROR_OVERFLOW_DETECTED
      else if acc + entry_size e > UINT16_MAX then Inl AWS_CRYPTOSDK_ERR_LIMIT_EXCEEDED
      else size_loop (acc + entry_size e) es)"
proof (cases e)
  case (Pair key val)
  have "acc + len key + len val + 4 = acc + entry_size (key, val)"
    by (simp add: entry_size_def)
  with Pair show ?thesis
    by (simp only: size_loop.simps add_size_checked_varargs_4 sum.case split: if_split) simp
qed

lemma UINT16_MAX_le_SIZE_MAX: "UINT16_MAX \<le> SIZE_MAX"
  by (simp add: UINT16_MAX_def SIZE_MAX_def)

lemma size_loop_fits:
  "acc + sum_list (map entry_size es) \<le> UINT16_MAX \<Longrightarrow>
   size_loop acc es = Inr (acc + sum_list (map entry_size es))"
proof (induction es arbitrary: acc)
  case Nil
  then show ?case by simp
next
  case (Cons e es)
  from Cons.prems have "acc + entry_size e \<le> UINT16_MAX" by simp
  moreover from this UINT16_MAX_le_SIZE_MAX have "acc + entry_size e \<le> SIZE_MAX" by simp
  moreover from Cons.prems have "acc + entry_size e + sum_list (map entry_size es) \<le> UINT16_MAX"
    by simp
  ultimately show ?case
    using Cons.IH [of "acc + entry_size e"] by (simp add: size_loop_step add.assoc)
qed

lemma size_loop_fails:
  "UINT16_MAX < acc + sum_list (map entry_size es) \<Longrightarrow> acc \<le> UINT16_MAX \<Longrightarrow>
   \<exists>e. size_loop acc es = Inl e"
proof (induction es arbitrary: acc)
  case Nil
  then show ?case by simp
next
  case (Cons e es)
  then show ?case
    using Cons.IH [of "acc + entry_size e"] by (auto simp: size_loop_step add.assoc)
qed

lemma size_loop_limit_exceeded:
  "UINT16_MAX < acc + sum_list (map entry_size xs) \<Longrightarrow> acc \<le> UINT16_MAX \<Longrightarrow>
   acc + sum_list (map entry_size xs) \<le> SIZE_MAX \<Longrightarrow>
   size_loop acc (xs @ ys) = Inl AWS_CRYPTOSDK_ERR_LIMIT_EXCEEDED"
proof (induction xs arbitrary: acc)
  case Nil
  then show ?case by simp
next
  case (Cons e xs)
  from Cons.prems have "acc + entry_size e \<le> SIZE_MAX"
    by simp
  with Cons.prems show ?case
    using Cons.IH [of "acc + entry_size e"] by (auto simp: size_loop_step add.assoc)
qed

lemma encoded_size_eq: "encoded_size t = 2 + sum_list (map entry_size t)"
  by (simp add: encoded_size_def)

text \<open>
  Claim C3.  The size computation fails with the limit error for more than 65535
  entries and gives 0 for none.  Otherwise it gives 2 plus the sum over the entries of 4
  plus the two lengths when that sum is at most 65535, and fails when it is more, so it
  never returns a wrong or wrapped total.  It fails with the limit error as soon as the
  accumulator, a value of \<open>size_t\<close>, exceeds 65535 after some of the entries, whatever
  entries follow.  (A sum that \<open>size_t\<close> cannot hold never reaches the accumulator: there
  the checked addition fails with its own error.)
\<close>

theorem size_contract:
  "(UINT16_MAX < length enc_ctx \<longrightarrow>
      aws_cryptosdk_enc_ctx_size enc_ctx = Inl AWS_CRYPTOSDK_ERR_LIMIT_EXCEEDED) \<and>
   (length enc_ctx = 0 \<longrightarrow> aws_cryptosdk_enc_ctx_size enc_ctx = Inr 0) \<and>
   (0 < length enc_ctx \<and> length enc_ctx \<le> UINT16_MAX \<longrightarrow>
      (encoded_size enc_ctx \<le> UINT16_MAX \<longrightarrow>
         aws_cryptosdk_enc_ctx_size enc_ctx = Inr (encoded_size enc_ctx)) \<and>
      (UINT16_MAX < encoded_size enc_ctx \<longrightarrow>
         (\<exists>e. aws_cryptosdk_enc_ctx_size enc_ctx = Inl e)) \<and>
      (\<forall>xs ys. enc_ctx = xs @ ys \<and> UINT16_MAX < encoded_size xs \<and> encoded_size xs \<le> SIZE_MAX \<longrightarrow>
         aws_cryptosdk_enc_ctx_size enc_ctx = Inl AWS_CRYPTOSDK_ERR_LIMIT_EXCEEDED))"
proof -
  have big: "UINT16_MAX < length enc_ctx \<Longrightarrow>
      aws_cryptosdk_enc_ctx_size enc_ctx = Inl AWS_CRYPTOSDK_ERR_LIMIT_EXCEEDED"
    by (simp add: aws_cryptosdk_enc_ctx_size_def aws_hash_table_get_entry_count_def)
  have zero: "length enc_ctx = 0 \<Longrightarrow> aws_cryptosdk_enc_ctx_size enc_ctx = Inr 0"
    by (simp add: aws_cryptosdk_enc_ctx_size_def aws_hash_table_get_entry_count_def)
  have two: "2 \<le> UINT16_MAX"
    by (simp add: UINT16_MAX_def)
  have eq: "aws_cryptosdk_enc_ctx_size enc_ctx = size_loop 2 enc_ctx"
    if "0 < length enc_ctx \<and> length enc_ctx \<le> UINT16_MAX"
    using that
    by (simp add: aws_cryptosdk_enc_ctx_size_def aws_hash_table_get_entry_count_def)
  have fits: "aws_cryptosdk_enc_ctx_size enc_ctx = Inr (encoded_size enc_ctx)"
    if "0 < length enc_ctx \<and> length enc_ctx \<le> UINT16_MAX" "encoded_size enc_ctx \<le> UINT16_MAX"
    using that(2) size_loop_fits [of 2 enc_ctx]
    by (simp only: eq [OF that(1)] encoded_size_eq)
  have fails: "\<exists>e. aws_cryptosdk_enc_ctx_size enc_ctx = Inl e"
    if "0 < length enc_ctx \<and> length enc_ctx \<le> UINT16_MAX" "UINT16_MAX < encoded_size enc_ctx"
    using that(2) size_loop_fails [of 2 enc_ctx] two
    by (simp only: eq [OF that(1)] encoded_size_eq)
  have limit: "aws_cryptosdk_enc_ctx_size enc_ctx = Inl AWS_CRYPTOSDK_ERR_LIMIT_EXCEEDED"
    if "0 < length enc_ctx \<and> length enc_ctx \<le> UINT16_MAX"
      "enc_ctx = xs @ ys \<and> UINT16_MAX < encoded_size xs \<and> encoded_size xs \<le> SIZE_MAX"
    for xs ys
  proof -
    from that(2) have "UINT16_MAX < 2 + sum_list (map entry_size xs)"
      "2 + sum_list (map entry_size xs) \<le> SIZE_MAX"
      by (simp_all add: encoded_size_eq)
    from size_loop_limit_exceeded [OF this(1) two this(2), of ys] that(2) eq [OF that(1)]
    show ?thesis by simp
  qed
  from big zero fits fails limit show ?thesis
    by blast
qed

text \<open>
  An entry of 10 bytes gives 12; 65536 entries, and one entry with a key of 65530 bytes,
  give the limit error.
\<close>

theorem size_contract_witness:
  "aws_cryptosdk_enc_ctx_size
     [(\<lparr>addr = 0, allocator = None, bytes = [1, 2, 3]\<rparr>, \<lparr>addr = 1, allocator = None, bytes = [4, 5, 6]\<rparr>)] = Inr 12 \<and>
   aws_cryptosdk_enc_ctx_size
     (map (\<lambda>i. (\<lparr>addr = 2 * i, allocator = None, bytes = [of_nat i, of_nat (i div 256)]\<rparr>,
                 \<lparr>addr = 2 * i + 1, allocator = None, bytes = []\<rparr>)) [0..<65536]) =
     Inl AWS_CRYPTOSDK_ERR_LIMIT_EXCEEDED \<and>
   aws_cryptosdk_enc_ctx_size
     [(\<lparr>addr = 0, allocator = None, bytes = replicate 65530 0\<rparr>, \<lparr>addr = 1, allocator = None, bytes = [4]\<rparr>)] =
     Inl AWS_CRYPTOSDK_ERR_LIMIT_EXCEEDED"
proof -
  let ?small = "[(\<lparr>addr = 0, allocator = None, bytes = [1, 2, 3]\<rparr>, \<lparr>addr = 1, allocator = None, bytes = [4, 5, 6 :: byte]\<rparr>)]"
  let ?many = "map (\<lambda>i. (\<lparr>addr = 2 * i, allocator = None, bytes = [of_nat i, of_nat (i div 256) :: byte]\<rparr>,
                 \<lparr>addr = 2 * i + 1, allocator = None, bytes = []\<rparr>)) [0..<65536]"
  let ?big = "(\<lparr>addr = 0, allocator = None, bytes = replicate 65530 (0 :: byte)\<rparr>, \<lparr>addr = 1, allocator = None, bytes = [4 :: byte]\<rparr>)"
  have "aws_cryptosdk_enc_ctx_size ?small = Inr 12"
    using size_contract [of ?small]
    by (simp add: encoded_size_def entry_size_def len_def UINT16_MAX_def)
  moreover have "aws_cryptosdk_enc_ctx_size ?many = Inl AWS_CRYPTOSDK_ERR_LIMIT_EXCEEDED"
    using size_contract [of ?many]
    by (simp add: UINT16_MAX_def)
  moreover have "aws_cryptosdk_enc_ctx_size [?big] = Inl AWS_CRYPTOSDK_ERR_LIMIT_EXCEEDED"
  proof -
    have "0 < length [?big] \<and> length [?big] \<le> UINT16_MAX"
      by (simp add: UINT16_MAX_def)
    with size_contract [of "[?big]"]
    have "\<forall>xs ys. [?big] = xs @ ys \<and> UINT16_MAX < encoded_size xs \<and> encoded_size xs \<le> SIZE_MAX \<longrightarrow>
         aws_cryptosdk_enc_ctx_size [?big] = Inl AWS_CRYPTOSDK_ERR_LIMIT_EXCEEDED"
      by blast
    then have "[?big] = [?big] @ [] \<and> UINT16_MAX < encoded_size [?big] \<and> encoded_size [?big] \<le> SIZE_MAX \<longrightarrow>
         aws_cryptosdk_enc_ctx_size [?big] = Inl AWS_CRYPTOSDK_ERR_LIMIT_EXCEEDED"
      by blast
    then show ?thesis
      by (simp add: encoded_size_def entry_size_def len_def UINT16_MAX_def SIZE_MAX_def)
  qed
  ultimately show ?thesis
    by simp
qed

section \<open>Serialization: canonical output and round trip\<close>

lemma length_encode_elem: "length (encode_elem e) = entry_size e"
  by (simp add: encode_elem_def encode_entry_def entry_size_def len_def)

lemma serialize_loop_step:
  assumes "idx < n" "idx < length elems"
  shows "serialize_loop idx n elems output =
     (if length (buffer output) + length (encode_elem (elems ! idx)) \<le> capacity output
      then serialize_loop (idx + 1) n elems
             (output\<lparr>buffer := buffer output @ encode_elem (elems ! idx)\<rparr>)
      else (Inl AWS_ERROR_SHORT_BUFFER, \<lparr>buffer = [], capacity = 0\<rparr>))"
proof -
  obtain key val where e: "elems ! idx = (key, val)" by (cases "elems ! idx")
  show ?thesis
    using assms
    apply (subst serialize_loop.simps)
    apply (simp add: e encode_elem_def encode_entry_def len_def aws_byte_buf_write_be16_def
        aws_byte_buf_write_from_whole_string_def aws_byte_buf_write_def aws_byte_buf_clean_up_def)
    done
qed

lemma serialize_loop_result:
  assumes "idx \<le> length elems" "aws_byte_buf_is_valid out"
  shows "serialize_loop idx (length elems) elems out =
     (if length (buffer out) + length (concat (map encode_elem (drop idx elems))) \<le> capacity out
      then (Inr (), out\<lparr>buffer := buffer out @ concat (map encode_elem (drop idx elems))\<rparr>)
      else (Inl AWS_ERROR_SHORT_BUFFER, \<lparr>buffer = [], capacity = 0\<rparr>))"
  using assms
proof (induction "length elems - idx" arbitrary: idx out)
  case 0
  then have "idx = length elems" by simp
  with "0.prems" show ?case
    by (subst serialize_loop.simps) (simp add: aws_byte_buf_is_valid_def)
next
  case (Suc d)
  then have lt: "idx < length elems" by simp
  have dr: "drop idx elems = elems ! idx # drop (idx + 1) elems"
    using lt by (simp add: Cons_nth_drop_Suc)
  show ?case
  proof (cases "length (buffer out) + length (encode_elem (elems ! idx)) \<le> capacity out")
    case False
    with lt show ?thesis
      by (simp add: serialize_loop_step dr)
  next
    case True
    let ?o = "out\<lparr>buffer := buffer out @ encode_elem (elems ! idx)\<rparr>"
    from True have v: "aws_byte_buf_is_valid ?o"
      by (simp add: aws_byte_buf_is_valid_def)
    from Suc.hyps(2) lt have d: "d = length elems - (idx + 1)" by simp
    from lt have le: "idx + 1 \<le> length elems" by simp
    from Suc.hyps(1) [OF d le v] True lt show ?thesis
      by (simp add: serialize_loop_step dr add.assoc)
  qed
qed

lemma sum_list_insort_key:
  "sum_list (map f (insort_key k x xs)) = f x + sum_list (map f xs)"
  for f :: "'a \<Rightarrow> nat"
  by (induction xs) auto

lemma sum_list_sort_key:
  "sum_list (map f (sort_key k xs)) = sum_list (map f xs)"
  for f :: "'a \<Rightarrow> nat"
  by (induction xs) (auto simp: sum_list_insort_key)

lemma length_concat_encode:
  "length (concat (map encode_elem t)) = sum_list (map entry_size t)"
  by (induction t) (auto simp: length_encode_elem)

lemma concat_encode_contents:
  "concat (map encode_elem t) = concat (map encode_entry (contents t))"
  by (induction t) (simp_all add: contents_def encode_elem_def)

lemma size_Inr_cases:
  assumes "aws_cryptosdk_enc_ctx_size t = Inr n"
  shows "(t = [] \<and> n = 0) \<or> (t \<noteq> [] \<and> n = encoded_size t \<and> n \<le> UINT16_MAX)"
proof (cases "t = []")
  case True
  with assms show ?thesis
    by (simp add: aws_cryptosdk_enc_ctx_size_def aws_hash_table_get_entry_count_def UINT16_MAX_def)
next
  case False
  with assms have n: "length t \<le> UINT16_MAX" and l: "size_loop 2 t = Inr n"
    by (auto simp: aws_cryptosdk_enc_ctx_size_def aws_hash_table_get_entry_count_def Let_def
        split: if_splits)
  have "2 \<le> UINT16_MAX" by (simp add: UINT16_MAX_def)
  show ?thesis
  proof (cases "encoded_size t \<le> UINT16_MAX")
    case True
    with size_loop_fits [of 2 t] l False show ?thesis by (simp add: encoded_size_eq)
  next
    case b: False
    with size_loop_fails [of 2 t] \<open>2 \<le> UINT16_MAX\<close> l show ?thesis
      by (auto simp: encoded_size_eq)
  qed
qed

lemma serialize_success_output:
  assumes "aws_cryptosdk_enc_ctx_serialize alloc output enc_ctx m = (Inr (), output', m')"
    and "aws_byte_buf_is_valid output"
  shows "output' = output\<lparr>buffer := buffer output @ canonical_encoding enc_ctx\<rparr>"
proof -
  from assms(1) obtain n where n: "aws_cryptosdk_enc_ctx_size enc_ctx = Inr n"
    by (auto simp: aws_cryptosdk_enc_ctx_serialize_def Let_def split: if_splits sum.splits)
  from size_Inr_cases [OF n] show ?thesis
  proof
    assume "enc_ctx = [] \<and> n = 0"
    with assms(1) n show ?thesis
      by (simp add: aws_cryptosdk_enc_ctx_serialize_def Let_def canonical_encoding_def
          aws_hash_table_get_entry_count_def UINT16_MAX_def)
  next
    assume ne: "enc_ctx \<noteq> [] \<and> n = encoded_size enc_ctx \<and> n \<le> UINT16_MAX"
    let ?elems = "aws_array_list_sort enc_ctx"
    have len: "length ?elems = length enc_ctx"
      by (simp add: aws_array_list_sort_def)
    from assms(1) n ne obtain output1 where
      w: "aws_byte_buf_write_be16 output (of_nat (length enc_ctx)) = Some output1" and
      l: "serialize_loop 0 (length enc_ctx) ?elems output1 = (Inr (), output')"
      by (auto simp: aws_cryptosdk_enc_ctx_serialize_def Let_def encoded_size_def
          aws_hash_table_get_entry_count_def aws_cryptosdk_hash_elems_array_init_def
          split: if_splits option.splits prod.splits bool.splits)
    from w have o1: "output1 = output\<lparr>buffer := buffer output @ be16 (of_nat (length enc_ctx))\<rparr>"
      and "length (buffer output) + 2 \<le> capacity output"
      by (auto simp: aws_byte_buf_write_be16_def aws_byte_buf_write_def split: if_splits)
    then have v1: "aws_byte_buf_is_valid output1"
      by (simp add: aws_byte_buf_is_valid_def)
    from serialize_loop_result [of 0 ?elems output1, OF _ v1] l
    have "output' = output1\<lparr>buffer := buffer output1 @ concat (map encode_elem ?elems)\<rparr>"
      by (simp add: len split: if_splits)
    with o1 ne show ?thesis
      by (simp add: canonical_encoding_def encode_entries_def concat_encode_contents len
          contents_def)
  qed
qed

lemma serialize_succeeds:
  assumes "length enc_ctx \<le> UINT16_MAX" "encoded_size enc_ctx \<le> UINT16_MAX"
    and "aws_byte_buf_is_valid output"
    and "enc_ctx \<noteq> [] \<longrightarrow> length (buffer output) + encoded_size enc_ctx \<le> capacity output"
    and "no_faults m"
  shows "\<exists>m'. aws_cryptosdk_enc_ctx_serialize alloc output enc_ctx m =
           (Inr (), output\<lparr>buffer := buffer output @ canonical_encoding enc_ctx\<rparr>, m') \<and>
           no_faults m'"
proof (cases "enc_ctx = []")
  case True
  with assms(5) show ?thesis
    by (simp add: aws_cryptosdk_enc_ctx_serialize_def aws_cryptosdk_enc_ctx_size_def
        aws_hash_table_get_entry_count_def canonical_encoding_def UINT16_MAX_def)
next
  case False
  let ?elems = "aws_array_list_sort enc_ctx"
  let ?o1 = "output\<lparr>buffer := buffer output @ be16 (of_nat (length enc_ctx))\<rparr>"
  have len: "length ?elems = length enc_ctx"
    by (simp add: aws_array_list_sort_def)
  from False assms(1,2) have sz: "aws_cryptosdk_enc_ctx_size enc_ctx = Inr (encoded_size enc_ctx)"
    using size_loop_fits [of 2 enc_ctx]
    by (simp add: aws_cryptosdk_enc_ctx_size_def aws_hash_table_get_entry_count_def encoded_size_eq)
  from False assms(4) have cap: "length (buffer output) + encoded_size enc_ctx \<le> capacity output"
    by simp
  then have w: "aws_byte_buf_write_be16 output (of_nat (length enc_ctx)) = Some ?o1"
    by (simp add: aws_byte_buf_write_be16_def aws_byte_buf_write_def encoded_size_def)
  from cap have v1: "aws_byte_buf_is_valid ?o1"
    by (simp add: aws_byte_buf_is_valid_def encoded_size_def)
  from mem_acquire_no_faults [OF assms(5)] obtain m1 where
    m1: "mem_acquire m = (True, m1)" "no_faults m1" by blast
  have sum: "sum_list (map entry_size ?elems) = sum_list (map entry_size enc_ctx)"
    by (simp add: aws_array_list_sort_def sum_list_sort_key)
  from cap have fit: "length (buffer ?o1) + length (concat (map encode_elem (drop 0 ?elems))) \<le> capacity ?o1"
    by (simp add: length_concat_encode sum encoded_size_def)
  from serialize_loop_result [of 0 ?elems ?o1, OF _ v1] fit
  have l: "serialize_loop 0 (length enc_ctx) ?elems ?o1 =
      (Inr (), ?o1\<lparr>buffer := buffer ?o1 @ concat (map encode_elem ?elems)\<rparr>)"
    by (simp add: len)
  from False have "encoded_size enc_ctx \<noteq> 0" by (simp add: encoded_size_def)
  with False assms(1) sz cap w m1 l show ?thesis
    by (simp add: aws_cryptosdk_enc_ctx_serialize_def Let_def aws_hash_table_get_entry_count_def
        aws_cryptosdk_hash_elems_array_init_def canonical_encoding_def encode_entries_def
        concat_encode_contents contents_def len)
qed

lemma valid_iff_contents: "aws_hash_table_is_valid t \<longleftrightarrow> distinct (map fst (contents t))"
  by (simp add: aws_hash_table_is_valid_def contents_def comp_def)

lemma set_contents_sort: "set (contents (aws_array_list_sort t)) = set (contents t)"
  by (simp add: contents_def aws_array_list_sort_def)

lemma length_contents_sort: "length (contents (aws_array_list_sort t)) = length t"
  by (simp add: contents_def aws_array_list_sort_def)

lemma contents_sort_Nil: "contents (aws_array_list_sort t) = [] \<longleftrightarrow> t = []"
  by (metis length_contents_sort length_0_conv)

lemma keys_contents_sort:
  "map fst (contents (aws_array_list_sort t)) =
   map (\<lambda>e. bytes (fst e)) (sort_key (\<lambda>e. bytes (fst e)) t)"
  by (simp add: contents_def aws_array_list_sort_def comp_def)

lemma sorted_contents_sort: "sorted (map fst (contents (aws_array_list_sort t)))"
  by (simp only: keys_contents_sort sorted_sort_key)

lemma distinct_contents_sort:
  "aws_hash_table_is_valid t \<Longrightarrow> distinct (map fst (contents (aws_array_list_sort t)))"
  by (simp only: keys_contents_sort) (simp add: aws_hash_table_is_valid_def distinct_map)

lemma strictly_sorted_contents_sort:
  assumes "aws_hash_table_is_valid t"
  shows "sorted_wrt (\<lambda>a b. fst a < fst b) (contents (aws_array_list_sort t))"
proof -
  from sorted_contents_sort [of t] distinct_contents_sort [OF assms]
  have "sorted_wrt (<) (map fst (contents (aws_array_list_sort t)))"
    by (simp add: strict_sorted_iff)
  then show ?thesis by (simp add: sorted_wrt_map)
qed

lemma contents_sort_unique:
  assumes "aws_hash_table_is_valid t1" "aws_hash_table_is_valid t2"
    and "set (contents t1) = set (contents t2)"
  shows "contents (aws_array_list_sort t1) = contents (aws_array_list_sort t2)"
proof (rule map_sorted_distinct_set_unique [where f = fst])
  from assms(1) have "inj_on fst (set (contents t1))"
    by (simp add: valid_iff_contents distinct_map)
  with assms(3) show "inj_on fst (set (contents (aws_array_list_sort t1)) \<union>
      set (contents (aws_array_list_sort t2)))"
    by (simp add: set_contents_sort)
qed (simp_all add: sorted_contents_sort distinct_contents_sort set_contents_sort assms)

lemma canonical_encoding_unique:
  assumes "aws_hash_table_is_valid t1" "aws_hash_table_is_valid t2"
    and "set (contents t1) = set (contents t2)"
  shows "canonical_encoding t1 = canonical_encoding t2"
proof -
  from assms(3) have "t1 = [] \<longleftrightarrow> t2 = []"
    by (auto simp: contents_def)
  with contents_sort_unique [OF assms] show ?thesis
    by (simp add: canonical_encoding_def)
qed

text \<open>
  Claim C2.  Two valid tables with the same set of key and value bytes, whatever their
  iteration orders, the addresses and the owners of their strings: when both
  serializations succeed, they append the same bytes, and these bytes are the encoding of
  the entries in strictly increasing byte-lexicographic order of the keys.
\<close>

theorem serialize_canonical:
  assumes "aws_hash_table_is_valid t1" and "aws_hash_table_is_valid t2"
    and "set (contents t1) = set (contents t2)"
    and "aws_byte_buf_is_valid out1" and "aws_byte_buf_is_valid out2"
    and "aws_cryptosdk_enc_ctx_serialize alloc1 out1 t1 m1 = (Inr (), out1', m1')"
    and "aws_cryptosdk_enc_ctx_serialize alloc2 out2 t2 m2 = (Inr (), out2', m2')"
  shows "\<exists>written es.
           buffer out1' = buffer out1 @ written \<and> buffer out2' = buffer out2 @ written \<and>
           written = (if es = [] then [] else encode_entries es) \<and>
           sorted_wrt (\<lambda>a b. fst a < fst b) es \<and> set es = set (contents t1)"
proof -
  let ?es = "contents (aws_array_list_sort t1)"
  have e: "?es = [] \<longleftrightarrow> t1 = []"
    by (rule contents_sort_Nil)
  from serialize_success_output [OF assms(6,4)]
  have 1: "buffer out1' = buffer out1 @ canonical_encoding t1" by simp
  from serialize_success_output [OF assms(7,5)] canonical_encoding_unique [OF assms(1-3)]
  have 2: "buffer out2' = buffer out2 @ canonical_encoding t1" by simp
  have 3: "canonical_encoding t1 = (if ?es = [] then [] else encode_entries ?es)"
    by (simp add: canonical_encoding_def e)
  show ?thesis
  proof (intro exI conjI)
    show "buffer out1' = buffer out1 @ canonical_encoding t1" by (fact 1)
    show "buffer out2' = buffer out2 @ canonical_encoding t1" by (fact 2)
    show "canonical_encoding t1 = (if ?es = [] then [] else encode_entries ?es)" by (fact 3)
    show "sorted_wrt (\<lambda>a b. fst a < fst b) ?es"
      by (rule strictly_sorted_contents_sort [OF assms(1)])
    show "set ?es = set (contents t1)" by (rule set_contents_sort)
  qed
qed

lemma entry_size_le_encoded_size: "e \<in> set t \<Longrightarrow> entry_size e \<le> encoded_size t"
  using member_le_sum_list [of "entry_size e" "map entry_size t"]
  by (simp add: encoded_size_def)

text \<open>
  Claim C1.  A valid table of at most 65535 entries whose encoding has at most 65535
  bytes, an output buffer with room for the encoding, and no allocation failure:
  serialization succeeds, and deserializing the bytes it appended (into any table)
  succeeds, consumes all of them and leaves a valid table with the same set of key and
  value bytes.
\<close>

theorem round_trip:
  assumes "aws_hash_table_is_valid M" and "length M \<le> UINT16_MAX"
    and "encoded_size M \<le> UINT16_MAX"
    and "aws_byte_buf_is_valid out"
    and "M \<noteq> [] \<longrightarrow> length (buffer out) + encoded_size M \<le> capacity out"
    and "no_faults m1" and "no_faults m2"
  shows "\<exists>written out' m1' dest' m2'.
           aws_cryptosdk_enc_ctx_serialize alloc' out M m1 = (Inr (), out', m1') \<and>
           buffer out' = buffer out @ written \<and>
           aws_cryptosdk_enc_ctx_deserialize alloc dest written m2 = (Inr (), dest', [], m2') \<and>
           set (contents dest') = set (contents M) \<and>
           aws_hash_table_is_valid dest' \<and> length dest' = length M"
proof -
  from serialize_succeeds [OF assms(2-6)] obtain m1' where
    s: "aws_cryptosdk_enc_ctx_serialize alloc' out M m1 =
          (Inr (), out\<lparr>buffer := buffer out @ canonical_encoding M\<rparr>, m1')"
    by blast
  have "\<exists>dest' m2'.
      aws_cryptosdk_enc_ctx_deserialize alloc dest (canonical_encoding M) m2 = (Inr (), dest', [], m2') \<and>
      set (contents dest') = set (contents M) \<and> aws_hash_table_is_valid dest' \<and>
      length dest' = length M"
  proof (cases "M = []")
    case True
    then show ?thesis
      by (simp add: canonical_encoding_def aws_cryptosdk_enc_ctx_deserialize_def
          aws_cryptosdk_enc_ctx_clear_def contents_def aws_hash_table_is_valid_def)
  next
    case False
    let ?es = "contents (aws_array_list_sort M)"
    have len: "length ?es = length M"
      by (rule length_contents_sort)
    from False have ne: "?es \<noteq> []" by (simp add: contents_sort_Nil)
    from assms(2) len have n: "length ?es \<le> 65535" by (simp add: UINT16_MAX_def)
    have b: "\<forall>e \<in> set ?es. length (fst e) \<le> 65535 \<and> length (snd e) \<le> 65535"
    proof
      fix e assume "e \<in> set ?es"
      then have "e \<in> set (contents M)" by (simp only: set_contents_sort)
      then obtain x where x: "x \<in> set M" "e = (bytes (fst x), bytes (snd x))"
        by (auto simp: contents_def)
      from entry_size_le_encoded_size [OF x(1)] assms(3) have "entry_size x \<le> 65535"
        by (simp add: UINT16_MAX_def)
      with x(2) show "length (fst e) \<le> 65535 \<and> length (snd e) \<le> 65535"
        by (simp add: entry_size_def len_def)
    qed
    from deserialize_encoded_entries [OF ne n b distinct_contents_sort [OF assms(1)] assms(7),
        of alloc dest "[]"]
    obtain dest' m2' where
      d: "aws_cryptosdk_enc_ctx_deserialize alloc dest (encode_entries ?es) m2 = (Inr (), dest', [], m2')"
      and c: "contents dest' = ?es"
      by auto
    from c have "set (contents dest') = set (contents M)"
      by (simp add: set_contents_sort)
    moreover from c distinct_contents_sort [OF assms(1)] have "aws_hash_table_is_valid dest'"
      by (simp add: valid_iff_contents)
    moreover from len have "length dest' = length M"
      unfolding c [symmetric] by (simp add: contents_def)
    moreover from d False have
      "aws_cryptosdk_enc_ctx_deserialize alloc dest (canonical_encoding M) m2 = (Inr (), dest', [], m2')"
      by (simp add: canonical_encoding_def)
    ultimately show ?thesis
      by (intro exI conjI)
  qed
  then obtain dest' m2' where
    "aws_cryptosdk_enc_ctx_deserialize alloc dest (canonical_encoding M) m2 = (Inr (), dest', [], m2')"
    "set (contents dest') = set (contents M)" "aws_hash_table_is_valid dest'"
    "length dest' = length M"
    by blast
  with s show ?thesis
    by (intro exI [of _ "canonical_encoding M"] exI [of _ "out\<lparr>buffer := buffer out @ canonical_encoding M\<rparr>"]
        exI [of _ m1'] exI [of _ dest'] exI [of _ m2']) simp
qed

lemmas serialize_eval =
  aws_cryptosdk_enc_ctx_serialize_def aws_cryptosdk_enc_ctx_size_def
  aws_hash_table_get_entry_count_def aws_add_size_checked_varargs_def
  aws_add_size_checked_def UINT16_MAX_def SIZE_MAX_def len_def
  aws_cryptosdk_hash_elems_array_init_def mem_acquire_def aws_array_list_sort_def
  serialize_loop.simps aws_byte_buf_write_be16_def aws_byte_buf_write_from_whole_string_def
  aws_byte_buf_write_def aws_byte_buf_clean_up_def be16_def

text \<open>
  The entries 2 \<open>\<mapsto>\<close> 9 and 1 \<open>\<mapsto>\<close> empty in both orders, with strings of different
  addresses and owners, written to buffers of different capacities.
\<close>

theorem serialize_canonical_witness:
  "buffer (fst (snd (aws_cryptosdk_enc_ctx_serialize 3 \<lparr>buffer = [], capacity = 13\<rparr>
      [(\<lparr>addr = 0, allocator = None, bytes = [2]\<rparr>, \<lparr>addr = 1, allocator = None, bytes = [9]\<rparr>),
       (\<lparr>addr = 2, allocator = Some 5, bytes = [1]\<rparr>, \<lparr>addr = 3, allocator = Some 5, bytes = []\<rparr>)]
      \<lparr>next_addr = 8, faults = []\<rparr>))) =
   buffer (fst (snd (aws_cryptosdk_enc_ctx_serialize 4 \<lparr>buffer = [], capacity = 64\<rparr>
      [(\<lparr>addr = 4, allocator = Some 6, bytes = [1]\<rparr>, \<lparr>addr = 5, allocator = None, bytes = []\<rparr>),
       (\<lparr>addr = 6, allocator = Some 6, bytes = [2]\<rparr>, \<lparr>addr = 7, allocator = Some 6, bytes = [9]\<rparr>)]
      \<lparr>next_addr = 8, faults = []\<rparr>))) \<and>
   buffer (fst (snd (aws_cryptosdk_enc_ctx_serialize 3 \<lparr>buffer = [], capacity = 13\<rparr>
      [(\<lparr>addr = 0, allocator = None, bytes = [2]\<rparr>, \<lparr>addr = 1, allocator = None, bytes = [9]\<rparr>),
       (\<lparr>addr = 2, allocator = Some 5, bytes = [1]\<rparr>, \<lparr>addr = 3, allocator = Some 5, bytes = []\<rparr>)]
      \<lparr>next_addr = 8, faults = []\<rparr>))) = [0, 2, 0, 1, 1, 0, 0, 0, 1, 2, 0, 1, 9]"
proof -
  let ?t1 = "[(\<lparr>addr = 0, allocator = None, bytes = [2 :: byte]\<rparr>, \<lparr>addr = 1, allocator = None, bytes = [9 :: byte]\<rparr>),
       (\<lparr>addr = 2, allocator = Some 5, bytes = [1]\<rparr>, \<lparr>addr = 3, allocator = Some 5, bytes = []\<rparr>)]"
  let ?t2 = "[(\<lparr>addr = 4, allocator = Some 6, bytes = [1 :: byte]\<rparr>, \<lparr>addr = 5, allocator = None, bytes = ([] :: byte list)\<rparr>),
       (\<lparr>addr = 6, allocator = Some 6, bytes = [2]\<rparr>, \<lparr>addr = 7, allocator = Some 6, bytes = [9]\<rparr>)]"
  let ?m = "\<lparr>next_addr = 8, faults = []\<rparr>"
  let ?r1 = "aws_cryptosdk_enc_ctx_serialize 3 \<lparr>buffer = [], capacity = 13\<rparr> ?t1 ?m"
  let ?r2 = "aws_cryptosdk_enc_ctx_serialize 4 \<lparr>buffer = [], capacity = 64\<rparr> ?t2 ?m"
  have v: "aws_hash_table_is_valid ?t1" "aws_hash_table_is_valid ?t2"
    "set (contents ?t1) = set (contents ?t2)"
    "aws_byte_buf_is_valid \<lparr>buffer = [], capacity = 13\<rparr>"
    "aws_byte_buf_is_valid \<lparr>buffer = [], capacity = 64\<rparr>"
    by (auto simp: aws_hash_table_is_valid_def contents_def aws_byte_buf_is_valid_def)
  have r1: "?r1 = (Inr (), fst (snd ?r1), snd (snd ?r1))"
    by (simp add: serialize_eval)
  have r2: "?r2 = (Inr (), fst (snd ?r2), snd (snd ?r2))"
    by (simp add: serialize_eval)
  from serialize_canonical [OF v r1 r2]
  have "buffer (fst (snd ?r1)) = buffer (fst (snd ?r2))"
    by auto
  moreover have "buffer (fst (snd ?r1)) = [0, 2, 0, 1, 1, 0, 0, 0, 1, 2, 0, 1, 9]"
    by (simp add: serialize_eval)
  ultimately show ?thesis
    by (rule conjI)
qed

text \<open>The same two entries, serialized and read back into a table that held an entry.\<close>

theorem round_trip_witness:
  "\<exists>written out' m1' dest' m2'.
     aws_cryptosdk_enc_ctx_serialize 3 \<lparr>buffer = [], capacity = 13\<rparr>
       [(\<lparr>addr = 0, allocator = None, bytes = [2]\<rparr>, \<lparr>addr = 1, allocator = None, bytes = [9]\<rparr>),
        (\<lparr>addr = 2, allocator = Some 5, bytes = [1]\<rparr>, \<lparr>addr = 3, allocator = Some 5, bytes = []\<rparr>)]
       \<lparr>next_addr = 8, faults = []\<rparr> = (Inr (), out', m1') \<and>
     buffer out' = written \<and>
     aws_cryptosdk_enc_ctx_deserialize 7
       [(\<lparr>addr = 4, allocator = None, bytes = [3]\<rparr>, \<lparr>addr = 5, allocator = None, bytes = [4]\<rparr>)]
       written \<lparr>next_addr = 8, faults = [False]\<rparr> = (Inr (), dest', [], m2') \<and>
     set (contents dest') = {([2], [9]), ([1], [])} \<and>
     aws_hash_table_is_valid dest' \<and> length dest' = 2"
  using round_trip [where
      M = "[(\<lparr>addr = 0, allocator = None, bytes = [2]\<rparr>, \<lparr>addr = 1, allocator = None, bytes = [9]\<rparr>),
        (\<lparr>addr = 2, allocator = Some 5, bytes = [1]\<rparr>, \<lparr>addr = 3, allocator = Some 5, bytes = []\<rparr>)]"
      and out = "\<lparr>buffer = [], capacity = 13\<rparr>" and ?m1.0 = "\<lparr>next_addr = 8, faults = []\<rparr>"
      and ?m2.0 = "\<lparr>next_addr = 8, faults = [False]\<rparr>" and alloc = 7 and alloc' = 3
      and dest = "[(\<lparr>addr = 4, allocator = None, bytes = [3]\<rparr>, \<lparr>addr = 5, allocator = None, bytes = [4]\<rparr>)]"]
  by (simp add: aws_hash_table_is_valid_def UINT16_MAX_def encoded_size_def entry_size_def len_def
      aws_byte_buf_is_valid_def no_faults_def contents_def numeral_2_eq_2)

section \<open>Clone: convergence and the copy-or-reuse policy\<close>

lemma lookup_Nil [simp]: "lookup [] = Map.empty"
  by (simp add: lookup_def contents_def)

lemma lookup_Cons:
  "lookup (e # t) = (lookup t)(bytes (fst e) \<mapsto> bytes (snd e))"
  by (simp add: lookup_def contents_def)

lemma keys_Cons [simp]: "keys (e # t) = insert (bytes (fst e)) (keys t)"
  by (simp add: keys_def)

lemma keys_Nil [simp]: "keys [] = {}"
  by (simp add: keys_def)

lemma valid_Cons [simp]:
  "aws_hash_table_is_valid (e # t) \<longleftrightarrow> bytes (fst e) \<notin> keys t \<and> aws_hash_table_is_valid t"
  by (simp add: aws_hash_table_is_valid_def keys_def)

lemma dom_lookup: "dom (lookup t) = keys t"
  by (simp add: lookup_def dom_map_of_conv_image_fst keys_contents)

lemma find_Nil [simp]: "aws_hash_table_find [] k = None"
  by (simp add: aws_hash_table_find_def)

lemma find_Some_in_keys: "aws_hash_table_find t k = Some e \<Longrightarrow> bytes k \<in> keys t"
  using find_None_iff_keys [of t k] by auto

lemma find_Cons:
  "aws_hash_table_find (e # t) k =
     (if bytes (fst e) = bytes k then Some e else aws_hash_table_find t k)"
  by (simp add: aws_hash_table_find_def aws_string_eq_def)

lemma find_Some_lookup:
  "aws_hash_table_find t k = Some e \<Longrightarrow>
   e \<in> set t \<and> bytes (fst e) = bytes k \<and> lookup t (bytes k) = Some (bytes (snd e))"
  by (induction t) (auto simp: find_Cons lookup_Cons split: if_splits)

lemma update_elem_props:
  assumes "aws_hash_table_find t k = Some e" "bytes (fst e') = bytes k"
  shows "keys (update_elem k e' t) = keys t \<and>
         lookup (update_elem k e' t) = (lookup t)(bytes k \<mapsto> bytes (snd e')) \<and>
         (aws_hash_table_is_valid t \<longrightarrow> aws_hash_table_is_valid (update_elem k e' t))"
  using assms
proof (induction t)
  case Nil
  then show ?case by simp
next
  case (Cons x t)
  show ?case
  proof (cases "bytes (fst x) = bytes k")
    case True
    with Cons.prems show ?thesis
      by (auto simp: aws_string_eq_def lookup_Cons fun_eq_iff)
  next
    case False
    with Cons.prems have "aws_hash_table_find t k = Some e" by (simp add: find_Cons)
    from Cons.IH [OF this Cons.prems(2)] False show ?thesis
      by (auto simp: aws_string_eq_def lookup_Cons)
  qed
qed

lemma append_elem_props:
  assumes "bytes k \<notin> keys t"
  shows "keys (t @ [(k, v)]) = insert (bytes k) (keys t) \<and>
         lookup (t @ [(k, v)]) = (lookup t)(bytes k \<mapsto> bytes v) \<and>
         (aws_hash_table_is_valid t \<longrightarrow> aws_hash_table_is_valid (t @ [(k, v)]))"
  using assms
  by (induction t) (auto simp: lookup_Cons lookup_def contents_def)

lemma put_props:
  assumes "aws_hash_table_put t k v m = (Inr b, t', m')"
  shows "keys t' = insert (bytes k) (keys t) \<and>
         lookup t' = (lookup t)(bytes k \<mapsto> bytes v) \<and>
         (aws_hash_table_is_valid t \<longrightarrow> aws_hash_table_is_valid t')"
proof (cases "aws_hash_table_find t k")
  case None
  with assms have t': "t' = t @ [(k, v)]"
    by (auto simp: aws_hash_table_put_def split: prod.splits bool.splits)
  from None have "bytes k \<notin> keys t" by (simp add: find_None_iff_keys)
  from append_elem_props [OF this] t' show ?thesis by simp
next
  case (Some e)
  with assms have t': "t' = update_elem k (k, v) t"
    by (auto simp: aws_hash_table_put_def)
  from Some have "bytes k \<in> keys t" by (rule find_Some_in_keys)
  with update_elem_props [OF Some, of "(k, v)"] t' show ?thesis by auto
qed

lemma clone_or_reuse_string_bytes:
  "clone_or_reuse_string alloc str m = (Some s, m') \<Longrightarrow> bytes s = bytes str"
  by (auto simp: clone_or_reuse_string_def dest: new_from_array_Some split: if_splits)

lemma clone_prune_loop_filter:
  "clone_prune_loop src dest = filter (\<lambda>e. bytes (fst e) \<in> keys src) dest"
proof (induction dest)
  case Nil
  then show ?case by simp
next
  case (Cons e dest)
  obtain key val where e: "e = (key, val)" by (cases e)
  show ?case
    using Cons.IH find_None_iff_keys [of src key]
    by (cases "aws_hash_table_find src key") (auto simp: e)
qed

lemma clone_prune_loop_props:
  "keys (clone_prune_loop src dest) \<subseteq> keys src \<and>
   (aws_hash_table_is_valid dest \<longrightarrow> aws_hash_table_is_valid (clone_prune_loop src dest))"
  by (auto simp: clone_prune_loop_filter keys_def aws_hash_table_is_valid_def distinct_map_filter)

lemma clone_update_loop_props:
  assumes "clone_update_loop alloc iter dest m = (Inr (), dest', m')"
    and "aws_hash_table_is_valid dest" and "aws_hash_table_is_valid iter"
  shows "aws_hash_table_is_valid dest' \<and> keys dest' = keys dest \<union> keys iter \<and>
         (\<forall>k. lookup dest' k = (if k \<in> keys iter then lookup iter k else lookup dest k))"
  using assms
proof (induction iter arbitrary: dest m)
  case Nil
  then show ?case by simp
next
  case (Cons e iter)
  obtain key val where e: "e = (key, val)" by (cases e)
  from Cons.prems(3) have viter: "aws_hash_table_is_valid iter" and nk: "bytes key \<notin> keys iter"
    by (simp_all add: e)
  have "\<exists>dest1 m1. clone_update_loop alloc iter dest1 m1 = (Inr (), dest', m') \<and>
      aws_hash_table_is_valid dest1 \<and> keys dest1 = insert (bytes key) (keys dest) \<and>
      lookup dest1 = (lookup dest)(bytes key \<mapsto> bytes val)"
  proof (cases "aws_hash_table_find dest key")
    case None
    with Cons.prems(1) obtain k v m1 m2 b dest1 m3 where
      k: "clone_or_reuse_string alloc key m = (Some k, m1)" and
      v: "clone_or_reuse_string alloc val m1 = (Some v, m2)" and
      p: "aws_hash_table_put dest k v m2 = (Inr b, dest1, m3)" and
      l: "clone_update_loop alloc iter dest1 m3 = (Inr (), dest', m')"
      by (auto simp: e split: prod.splits option.splits sum.splits)
    from put_props [OF p] clone_or_reuse_string_bytes [OF k] clone_or_reuse_string_bytes [OF v]
      Cons.prems(2) l
    show ?thesis by auto
  next
    case (Some dest_elem)
    note f = find_Some_lookup [OF Some]
    show ?thesis
    proof (cases "aws_string_eq (snd dest_elem) val")
      case True
      with Some Cons.prems(1) have l: "clone_update_loop alloc iter dest m = (Inr (), dest', m')"
        by (simp add: e)
      from f True have "lookup dest (bytes key) = Some (bytes val)"
        by (simp add: aws_string_eq_def)
      then have "(lookup dest)(bytes key \<mapsto> bytes val) = lookup dest"
        by (rule map_upd_triv)
      moreover have "bytes key \<in> keys dest"
        by (rule find_Some_in_keys [OF Some])
      ultimately show ?thesis
        using l Cons.prems(2) by (auto simp: insert_absorb)
    next
      case False
      with Some Cons.prems(1) obtain val' m1 where
        v: "clone_or_reuse_string alloc val m = (Some val', m1)" and
        l: "clone_update_loop alloc iter (update_elem key (fst dest_elem, val') dest) m1 =
              (Inr (), dest', m')"
        by (auto simp: e split: prod.splits option.splits)
      have "bytes key \<in> keys dest"
        by (rule find_Some_in_keys [OF Some])
      with update_elem_props [OF Some, of "(fst dest_elem, val')"] f
        clone_or_reuse_string_bytes [OF v] Cons.prems(2) l
      show ?thesis by (auto simp: insert_absorb)
    qed
  qed
  then obtain dest1 m1 where
    l: "clone_update_loop alloc iter dest1 m1 = (Inr (), dest', m')" and
    d1: "aws_hash_table_is_valid dest1" "keys dest1 = insert (bytes key) (keys dest)"
      "lookup dest1 = (lookup dest)(bytes key \<mapsto> bytes val)"
    by blast
  from Cons.IH [OF l d1(1) viter] have
    ih: "aws_hash_table_is_valid dest'" "keys dest' = keys dest1 \<union> keys iter"
      "\<And>k. lookup dest' k = (if k \<in> keys iter then lookup iter k else lookup dest1 k)"
    by auto
  from ih d1 nk show ?case
    by (auto simp: e lookup_Cons)
qed

text \<open>
  Claim C7.  For a valid source and a valid destination, whatever keys each of them holds,
  a clone that succeeds leaves a valid destination whose keys are the keys of the source
  and in which every key has the value bytes that it has in the source.
\<close>

theorem clone_convergence:
  assumes "aws_hash_table_is_valid src" and "aws_hash_table_is_valid dest"
    and "aws_cryptosdk_enc_ctx_clone alloc dest src m = (Inr (), dest', m')"
  shows "keys dest' = keys src \<and> lookup dest' = lookup src \<and>
         set (contents dest') = set (contents src) \<and> aws_hash_table_is_valid dest'"
proof -
  let ?pruned = "clone_prune_loop src dest"
  from clone_prune_loop_props [of src dest] assms(2) have
    p: "keys ?pruned \<subseteq> keys src" "aws_hash_table_is_valid ?pruned"
    by auto
  from assms(3) have "clone_update_loop alloc src ?pruned m = (Inr (), dest', m')"
    by (simp add: aws_cryptosdk_enc_ctx_clone_def)
  from clone_update_loop_props [OF this p(2) assms(1)] have
    r: "aws_hash_table_is_valid dest'" "keys dest' = keys ?pruned \<union> keys src"
      "\<And>k. lookup dest' k = (if k \<in> keys src then lookup src k else lookup ?pruned k)"
    by auto
  from r(2) p(1) have k: "keys dest' = keys src" by auto
  have l: "lookup dest' = lookup src"
  proof
    fix k
    show "lookup dest' k = lookup src k"
    proof (cases "k \<in> keys src")
      case True
      with r(3) show ?thesis by simp
    next
      case False
      with p(1) have "k \<notin> dom (lookup ?pruned)" "k \<notin> dom (lookup src)"
        by (auto simp: dom_lookup)
      with r(3) [of k] False show ?thesis by (auto simp: domIff)
    qed
  qed
  from r(1) assms(1) have "distinct (map fst (contents dest'))" "distinct (map fst (contents src))"
    by (simp_all add: valid_iff_contents)
  from map_of_inject_set [OF this] l have "set (contents dest') = set (contents src)"
    by (simp add: lookup_def)
  with k l r(1) show ?thesis by simp
qed

lemma mem_acquire_next_addr: "mem_acquire m = (b, m') \<Longrightarrow> next_addr m' = next_addr m"
  by (auto simp: mem_acquire_def split: list.splits)

lemma new_from_array_cases:
  assumes "aws_string_new_from_array alloc bs m = (res, m')"
  shows "next_addr m \<le> next_addr m' \<and>
         (\<forall>s. res = Some s \<longrightarrow> allocator s = Some alloc \<and> addr s = next_addr m \<and> bytes s = bs \<and>
                next_addr m' = Suc (next_addr m))"
proof -
  obtain b m1 where a: "mem_acquire m = (b, m1)" by (cases "mem_acquire m")
  from mem_acquire_next_addr [OF a] a assms show ?thesis
    by (cases b) (auto simp: aws_string_new_from_array_def)
qed

lemma clone_or_reuse_string_cases:
  assumes "clone_or_reuse_string alloc str m = (res, m')"
  shows "next_addr m \<le> next_addr m' \<and>
         (\<forall>s. res = Some s \<longrightarrow>
            (allocator str = None \<and> s = str) \<or>
            (allocator str \<noteq> None \<and> allocator s = Some alloc \<and> addr s = next_addr m \<and>
             bytes s = bytes str))"
proof (cases "allocator str = None")
  case True
  with assms show ?thesis by (auto simp: clone_or_reuse_string_def)
next
  case False
  with assms have "aws_string_new_from_array alloc (bytes str) m = (res, m')"
    by (simp add: clone_or_reuse_string_def)
  from new_from_array_cases [OF this] False show ?thesis by auto
qed

lemma clone_or_reuse_string_policy:
  assumes "clone_or_reuse_string alloc str m1 = (Some s, m2)"
    and "str \<in> strings src" and "next_addr m \<le> next_addr m1"
  shows "clone_policy alloc m src dest s"
  using clone_or_reuse_string_cases [OF assms(1)] assms(2,3)
  by (auto simp: clone_policy_def)

lemma strings_update_elem:
  "aws_hash_table_find t k = Some e \<Longrightarrow>
   strings (update_elem k (fst e, v) t) \<subseteq> insert v (strings t)"
proof (induction t)
  case Nil
  then show ?case by simp
next
  case (Cons x t)
  then show ?case
    by (cases "bytes (fst x) = bytes k")
      (auto simp: find_Cons aws_string_eq_def strings_def)
qed

lemma strings_put:
  assumes "aws_hash_table_put t k v m = (r, t', m')"
  shows "strings t' \<subseteq> insert k (insert v (strings t)) \<and> next_addr m' = next_addr m"
proof -
  from set_hash_table_put [OF assms] have "strings t' \<subseteq> insert k (insert v (strings t))"
    by (force simp: strings_def)
  moreover from assms have "next_addr m' = next_addr m"
    by (auto simp: aws_hash_table_put_def split: option.splits prod.splits bool.splits
        dest: mem_acquire_next_addr)
  ultimately show ?thesis by simp
qed

lemma strings_prune: "strings (clone_prune_loop src dest) \<subseteq> strings dest"
  by (auto simp: clone_prune_loop_filter strings_def)

lemma clone_update_loop_policy:
  assumes "clone_update_loop alloc iter dest1 m1 = (r, dest', m')"
    and "set iter \<subseteq> set src" and "next_addr m \<le> next_addr m1"
    and "\<forall>s \<in> strings dest1. clone_policy alloc m src dest s"
  shows "\<forall>s \<in> strings dest'. clone_policy alloc m src dest s"
  using assms
proof (induction iter arbitrary: dest1 m1)
  case Nil
  then show ?case by simp
next
  case (Cons e iter)
  obtain key val where e: "e = (key, val)" by (cases e)
  from Cons.prems(2) have src: "key \<in> strings src" "val \<in> strings src" "set iter \<subseteq> set src"
    by (force simp: e strings_def)+
  note IH = Cons.IH [OF _ src(3)]
  show ?case
  proof (cases "aws_hash_table_find dest1 key")
    case None
    obtain k ma where k: "clone_or_reuse_string alloc key m1 = (k, ma)"
      by (cases "clone_or_reuse_string alloc key m1")
    obtain v mb where v: "clone_or_reuse_string alloc val ma = (v, mb)"
      by (cases "clone_or_reuse_string alloc val ma")
    from clone_or_reuse_string_cases [OF k] clone_or_reuse_string_cases [OF v] Cons.prems(3)
    have le: "next_addr m \<le> next_addr ma" "next_addr m \<le> next_addr mb" by auto
    show ?thesis
    proof (cases "k = None \<or> v = None")
      case True
      with None k v Cons.prems(1) have "dest' = dest1"
        by (auto simp: e split: option.splits)
      with Cons.prems(4) show ?thesis by simp
    next
      case False
      then obtain k' v' where kv: "k = Some k'" "v = Some v'" by auto
      obtain rp dest2 mc where p: "aws_hash_table_put dest1 k' v' mb = (rp, dest2, mc)"
        by (cases "aws_hash_table_put dest1 k' v' mb")
      from clone_or_reuse_string_policy [OF k [unfolded kv] src(1) Cons.prems(3)]
        clone_or_reuse_string_policy [OF v [unfolded kv] src(2) le(1)]
        strings_put [OF p] Cons.prems(4) le(2)
      have d2: "\<forall>s \<in> strings dest2. clone_policy alloc m src dest s" "next_addr m \<le> next_addr mc"
        by auto
      show ?thesis
      proof (cases rp)
        case (Inl err)
        with None k v kv p Cons.prems(1) have "dest' = dest2" by (simp add: e)
        with d2 show ?thesis by simp
      next
        case (Inr b)
        with None k v kv p Cons.prems(1) have "clone_update_loop alloc iter dest2 mc = (r, dest', m')"
          by (simp add: e)
        from IH [OF this d2(2,1)] show ?thesis .
      qed
    qed
  next
    case (Some dest_elem)
    show ?thesis
    proof (cases "aws_string_eq (snd dest_elem) val")
      case True
      with Some Cons.prems(1) have "clone_update_loop alloc iter dest1 m1 = (r, dest', m')"
        by (simp add: e)
      from IH [OF this Cons.prems(3,4)] show ?thesis .
    next
      case False
      obtain v ma where v: "clone_or_reuse_string alloc val m1 = (v, ma)"
        by (cases "clone_or_reuse_string alloc val m1")
      from clone_or_reuse_string_cases [OF v] Cons.prems(3)
      have le: "next_addr m \<le> next_addr ma" by auto
      show ?thesis
      proof (cases v)
        case None
        with Some False v Cons.prems(1) have "dest' = dest1" by (simp add: e)
        with Cons.prems(4) show ?thesis by simp
      next
        case (Some val')
        with \<open>aws_hash_table_find dest1 key = Some dest_elem\<close> False v Cons.prems(1)
        have l: "clone_update_loop alloc iter (update_elem key (fst dest_elem, val') dest1) ma =
            (r, dest', m')"
          by (simp add: e)
        from clone_or_reuse_string_policy [OF v [unfolded Some] src(2) Cons.prems(3)]
          strings_update_elem [OF \<open>aws_hash_table_find dest1 key = Some dest_elem\<close>, of val']
          Cons.prems(4)
        have "\<forall>s \<in> strings (update_elem key (fst dest_elem, val') dest1).
            clone_policy alloc m src dest s"
          by auto
        from IH [OF l le this] show ?thesis .
      qed
    qed
  qed
qed

text \<open>
  Claim C8.  \<open>clone_or_reuse_string\<close> returns the very string it is given when that
  string has no allocator, and leaves the memory as it is; for a string with an allocator
  a successful call returns a string owned by the allocator of the call, with the same
  bytes, at the next unused address, hence a different reference.  In the destination
  after a clone, successful or not, every string obeys the policy above; and a reference
  to a string of the source that the destination did not hold before is a reference to a
  string without allocator.
\<close>

theorem clone_copy_or_reuse:
  "(allocator str = None \<longrightarrow> clone_or_reuse_string alloc str m = (Some str, m)) \<and>
   (allocator str \<noteq> None \<longrightarrow>
      (\<forall>s m'. clone_or_reuse_string alloc str m = (Some s, m') \<longrightarrow>
         allocator s = Some alloc \<and> bytes s = bytes str \<and> addr s = next_addr m \<and>
         next_addr m' = Suc (next_addr m) \<and> (addr str < next_addr m \<longrightarrow> s \<noteq> str))) \<and>
   (aws_cryptosdk_enc_ctx_clone alloc dest src m = (r, dest', m') \<longrightarrow>
      (\<forall>s \<in> strings dest'. clone_policy alloc m src dest s) \<and>
      ((\<forall>s \<in> strings src. addr s < next_addr m) \<longrightarrow>
         (\<forall>s \<in> strings dest' \<inter> strings src. s \<in> strings dest \<or> allocator s = None)))"
proof (intro conjI impI allI)
  assume "allocator str = None"
  then show "clone_or_reuse_string alloc str m = (Some str, m)"
    by (simp add: clone_or_reuse_string_def)
next
  fix s m' assume a: "allocator str \<noteq> None" "clone_or_reuse_string alloc str m = (Some s, m')"
  then have n: "aws_string_new_from_array alloc (bytes str) m = (Some s, m')"
    by (auto simp: clone_or_reuse_string_def split: if_splits)
  from new_from_array_cases [OF n]
  show "allocator s = Some alloc" "bytes s = bytes str" "addr s = next_addr m"
    "next_addr m' = Suc (next_addr m)"
    by auto
  then show "s \<noteq> str" if "addr str < next_addr m"
    using that by auto
next
  assume c: "aws_cryptosdk_enc_ctx_clone alloc dest src m = (r, dest', m')"
  then have l: "clone_update_loop alloc src (clone_prune_loop src dest) m = (r, dest', m')"
    by (simp add: aws_cryptosdk_enc_ctx_clone_def)
  have "\<forall>s \<in> strings (clone_prune_loop src dest). clone_policy alloc m src dest s"
    using strings_prune [of src dest] by (auto simp: clone_policy_def)
  from clone_update_loop_policy [OF l subset_refl le_refl this]
  show p: "\<forall>s \<in> strings dest'. clone_policy alloc m src dest s" .
  show "\<forall>s \<in> strings dest' \<inter> strings src. s \<in> strings dest \<or> allocator s = None"
    if "\<forall>s \<in> strings src. addr s < next_addr m"
  proof
    fix s assume "s \<in> strings dest' \<inter> strings src"
    with p that have "clone_policy alloc m src dest s" "addr s < next_addr m" by auto
    then show "s \<in> strings dest \<or> allocator s = None"
      by (auto simp: clone_policy_def)
  qed
qed

lemmas clone_eval =
  aws_cryptosdk_enc_ctx_clone_def aws_hash_table_find_def aws_string_eq_def
  clone_or_reuse_string_def aws_string_new_from_array_def mem_acquire_def
  aws_hash_table_put_def

text \<open>
  A destination with the extra key 5 and another value for the key 2, a source with the
  keys 2 (static strings) and 3 (strings owned by allocator 5).
\<close>

theorem clone_convergence_witness:
  "contents (fst (snd (aws_cryptosdk_enc_ctx_clone 7
      [(\<lparr>addr = 10, allocator = Some 7, bytes = [5]\<rparr>, \<lparr>addr = 11, allocator = Some 7, bytes = [1]\<rparr>),
       (\<lparr>addr = 12, allocator = Some 7, bytes = [2]\<rparr>, \<lparr>addr = 13, allocator = Some 7, bytes = [7]\<rparr>)]
      [(\<lparr>addr = 0, allocator = None, bytes = [2]\<rparr>, \<lparr>addr = 1, allocator = None, bytes = [9]\<rparr>),
       (\<lparr>addr = 2, allocator = Some 5, bytes = [3]\<rparr>, \<lparr>addr = 3, allocator = Some 5, bytes = [4]\<rparr>)]
      \<lparr>next_addr = 20, faults = []\<rparr>))) = [([2], [9]), ([3], [4])] \<and>
   keys (fst (snd (aws_cryptosdk_enc_ctx_clone 7
      [(\<lparr>addr = 10, allocator = Some 7, bytes = [5]\<rparr>, \<lparr>addr = 11, allocator = Some 7, bytes = [1]\<rparr>),
       (\<lparr>addr = 12, allocator = Some 7, bytes = [2]\<rparr>, \<lparr>addr = 13, allocator = Some 7, bytes = [7]\<rparr>)]
      [(\<lparr>addr = 0, allocator = None, bytes = [2]\<rparr>, \<lparr>addr = 1, allocator = None, bytes = [9]\<rparr>),
       (\<lparr>addr = 2, allocator = Some 5, bytes = [3]\<rparr>, \<lparr>addr = 3, allocator = Some 5, bytes = [4]\<rparr>)]
      \<lparr>next_addr = 20, faults = []\<rparr>))) = {[2], [3]}"
proof -
  let ?dest = "[(\<lparr>addr = 10, allocator = Some 7, bytes = [5 :: byte]\<rparr>, \<lparr>addr = 11, allocator = Some 7, bytes = [1 :: byte]\<rparr>),
       (\<lparr>addr = 12, allocator = Some 7, bytes = [2]\<rparr>, \<lparr>addr = 13, allocator = Some 7, bytes = [7]\<rparr>)]"
  let ?src = "[(\<lparr>addr = 0, allocator = None, bytes = [2 :: byte]\<rparr>, \<lparr>addr = 1, allocator = None, bytes = [9 :: byte]\<rparr>),
       (\<lparr>addr = 2, allocator = Some 5, bytes = [3]\<rparr>, \<lparr>addr = 3, allocator = Some 5, bytes = [4]\<rparr>)]"
  let ?r = "aws_cryptosdk_enc_ctx_clone 7 ?dest ?src \<lparr>next_addr = 20, faults = []\<rparr>"
  have v: "aws_hash_table_is_valid ?src" "aws_hash_table_is_valid ?dest"
    by (simp_all add: aws_hash_table_is_valid_def)
  have r: "?r = (Inr (), fst (snd ?r), snd (snd ?r))"
    by (simp add: clone_eval)
  from clone_convergence [OF v r] have "keys (fst (snd ?r)) = keys ?src"
    by simp
  then have "keys (fst (snd ?r)) = {[2], [3]}"
    by (simp add: keys_def)
  moreover have "contents (fst (snd ?r)) = [([2], [9]), ([3], [4])]"
    by (simp add: clone_eval contents_def)
  ultimately show ?thesis
    by simp
qed

text \<open>
  In the same clone the static value 9 is installed as the reference at address 1, and the
  owned key 3 and value 4 are installed as copies at the fresh addresses 20 and 21.
\<close>

theorem clone_copy_or_reuse_witness:
  "fst (clone_or_reuse_string 7 \<lparr>addr = 1, allocator = None, bytes = [9]\<rparr> \<lparr>next_addr = 20, faults = []\<rparr>) =
     Some \<lparr>addr = 1, allocator = None, bytes = [9]\<rparr> \<and>
   fst (clone_or_reuse_string 7 \<lparr>addr = 3, allocator = Some 5, bytes = [4]\<rparr> \<lparr>next_addr = 20, faults = []\<rparr>) =
     Some \<lparr>addr = 20, allocator = Some 7, bytes = [4]\<rparr> \<and>
   fst (snd (aws_cryptosdk_enc_ctx_clone 7
      [(\<lparr>addr = 10, allocator = Some 7, bytes = [5]\<rparr>, \<lparr>addr = 11, allocator = Some 7, bytes = [1]\<rparr>),
       (\<lparr>addr = 12, allocator = Some 7, bytes = [2]\<rparr>, \<lparr>addr = 13, allocator = Some 7, bytes = [7]\<rparr>)]
      [(\<lparr>addr = 0, allocator = None, bytes = [2]\<rparr>, \<lparr>addr = 1, allocator = None, bytes = [9]\<rparr>),
       (\<lparr>addr = 2, allocator = Some 5, bytes = [3]\<rparr>, \<lparr>addr = 3, allocator = Some 5, bytes = [4]\<rparr>)]
      \<lparr>next_addr = 20, faults = []\<rparr>)) =
     [(\<lparr>addr = 12, allocator = Some 7, bytes = [2]\<rparr>, \<lparr>addr = 1, allocator = None, bytes = [9]\<rparr>),
      (\<lparr>addr = 20, allocator = Some 7, bytes = [3]\<rparr>, \<lparr>addr = 21, allocator = Some 7, bytes = [4]\<rparr>)]"
proof -
  let ?dest = "[(\<lparr>addr = 10, allocator = Some 7, bytes = [5 :: byte]\<rparr>, \<lparr>addr = 11, allocator = Some 7, bytes = [1 :: byte]\<rparr>),
       (\<lparr>addr = 12, allocator = Some 7, bytes = [2]\<rparr>, \<lparr>addr = 13, allocator = Some 7, bytes = [7]\<rparr>)]"
  let ?src = "[(\<lparr>addr = 0, allocator = None, bytes = [2 :: byte]\<rparr>, \<lparr>addr = 1, allocator = None, bytes = [9 :: byte]\<rparr>),
       (\<lparr>addr = 2, allocator = Some 5, bytes = [3]\<rparr>, \<lparr>addr = 3, allocator = Some 5, bytes = [4]\<rparr>)]"
  let ?m = "\<lparr>next_addr = 20, faults = []\<rparr>"
  let ?static = "\<lparr>addr = 1, allocator = None, bytes = [9 :: byte]\<rparr>"
  let ?owned = "\<lparr>addr = 3, allocator = Some 5, bytes = [4 :: byte]\<rparr>"
  let ?r = "aws_cryptosdk_enc_ctx_clone 7 ?dest ?src ?m"
  have r: "?r = (Inr (), fst (snd ?r), snd (snd ?r))"
    by (simp add: clone_eval)
  from clone_copy_or_reuse [of ?static 7 ?m ?dest ?src "Inr ()" "fst (snd ?r)" "snd (snd ?r)"] r
  have 1: "clone_or_reuse_string 7 ?static ?m = (Some ?static, ?m)"
    and p: "\<forall>s \<in> strings (fst (snd ?r)). clone_policy 7 ?m ?src ?dest s"
    by simp_all
  have c: "clone_or_reuse_string 7 ?owned ?m =
      (Some (the (fst (clone_or_reuse_string 7 ?owned ?m))), snd (clone_or_reuse_string 7 ?owned ?m))"
    by (simp add: clone_eval)
  from clone_copy_or_reuse [of ?owned 7 ?m ?dest ?src "Inr ()" "fst (snd ?r)" "snd (snd ?r)"] c
  have 2: "allocator (the (fst (clone_or_reuse_string 7 ?owned ?m))) = Some 7"
    by auto
  have 3: "fst (clone_or_reuse_string 7 ?owned ?m) = Some \<lparr>addr = 20, allocator = Some 7, bytes = [4]\<rparr>"
    by (simp add: clone_eval)
  have 4: "fst (snd ?r) =
     [(\<lparr>addr = 12, allocator = Some 7, bytes = [2]\<rparr>, \<lparr>addr = 1, allocator = None, bytes = [9]\<rparr>),
      (\<lparr>addr = 20, allocator = Some 7, bytes = [3]\<rparr>, \<lparr>addr = 21, allocator = Some 7, bytes = [4]\<rparr>)]"
    by (simp add: clone_eval)
  from 1 2 3 4 p show ?thesis
    by simp
qed

end
